theory Spec2Isabelle
  imports Complex_Main
begin

section \<open>Affine registration notebook: a shallow embedding\<close>

text \<open>
  The notebook \<^verbatim>\<open>affine_reg_oasis.ipynb\<close> builds an augmentation pipeline, defines the
  network \<^verbatim>\<open>AffineNet\<close>, computes the known ("perfect") transform of a sample, trains
  against it and saves the model. Floating-point numbers are idealised as \<^typ>\<open>real\<close>:
  every statement below is about exact arithmetic, rounding is outside the model.
\<close>

subsection \<open>Exceptions\<close>

text \<open>
  \<open>ShapeError\<close> stands for the error with which the framework rejects the shape of an
  operand, \<open>LinAlgError\<close> for the one it raises on a singular matrix.
\<close>

datatype error =
    IndexError
  | KeyError
  | LinAlgError
  | ShapeError
  | AssertionError
  | Exception string

definition and_then :: "error + 'a \<Rightarrow> ('a \<Rightarrow> error + 'b) \<Rightarrow> error + 'b" where
  "and_then m f = (case m of Inl e \<Rightarrow> Inl e | Inr v \<Rightarrow> f v)"

subsection \<open>Globals and the augmentation parameters\<close>

definition S :: nat where
  "S = 64"










subsection \<open>Tensors\<close>

text \<open>
  A tensor is its shape and its contiguous row-major storage. A well-formed tensor stores
  as many numbers as its shape says.
\<close>

record tensor =
  shape :: "nat list"
  data :: "real list"

definition numel :: "tensor \<Rightarrow> nat" where
  "numel t = prod_list (shape t)"

definition wf_tensor :: "tensor \<Rightarrow> bool" where
  "wf_tensor t = (length (data t) = numel t)"

definition rows_of :: "nat \<Rightarrow> 'a list \<Rightarrow> 'a list list" where
  \<comment> \<open>the consecutive blocks of \<open>n\<close> elements of a storage\<close>
  "rows_of n xs = map (\<lambda>k. take n (drop (k * n) xs)) [0..<length xs div n]"

text \<open>
  \<^verbatim>\<open>Tensor.view\<close> with at most one inferred dimension \<^verbatim>\<open>-1\<close>: the rule of the
  framework's size inference. The storage is shared, so the data is unchanged.
\<close>

definition view :: "int list \<Rightarrow> tensor \<Rightarrow> error + tensor" where
  "view tgt t =
     (let n = numel t;
          newsize = prod_list (map nat (filter (\<lambda>d. d \<noteq> - 1) tgt));
          infer = list_ex (\<lambda>d. d = - 1) tgt
      in if list_ex (\<lambda>d. d < - 1) tgt then Inl ShapeError
         else if length (filter (\<lambda>d. d = - 1) tgt) > 1 then Inl ShapeError
         else if n = newsize \<or> (infer \<and> newsize > 0 \<and> n mod newsize = 0) then
           (if infer \<and> newsize = 0 then Inl ShapeError
            else Inr (t\<lparr>shape := map (\<lambda>d. if d = - 1 then n div newsize else nat d) tgt\<rparr>))
         else Inl ShapeError)"

text \<open>\<^verbatim>\<open>x[:, idx]\<close>: the channels listed in \<open>idx\<close>, for every element of the batch.\<close>

definition select_channels :: "nat list \<Rightarrow> tensor \<Rightarrow> error + tensor" where
  "select_channels idx t =
     (case shape t of
        b # c # rest \<Rightarrow>
          if list_ex (\<lambda>i. c \<le> i) idx then Inl IndexError
          else
            (let inner = prod_list rest in
             Inr \<lparr> shape = b # length idx # rest,
                   data = concat (map (\<lambda>blk. concat (map (\<lambda>i. take inner (drop (i * inner) blk)) idx))
                                      (rows_of (c * inner) (data t))) \<rparr>)
      | _ \<Rightarrow> Inl IndexError)"

text \<open>\<^verbatim>\<open>torch.cat(ts, dim=0)\<close> and \<^verbatim>\<open>torch.stack(ts)\<close> (a new leading dimension).\<close>

definition cat0 :: "tensor list \<Rightarrow> error + tensor" where
  "cat0 ts =
     (case ts of
        [] \<Rightarrow> Inl ShapeError
      | t # _ \<Rightarrow>
          if shape t = [] \<or> list_ex (\<lambda>u. shape u = [] \<or> tl (shape u) \<noteq> tl (shape t)) ts
          then Inl ShapeError
          else Inr \<lparr> shape = sum_list (map (\<lambda>u. hd (shape u)) ts) # tl (shape t),
                     data = concat (map data ts) \<rparr>)"

definition stack :: "tensor list \<Rightarrow> error + tensor" where
  "stack ts =
     (case ts of
        [] \<Rightarrow> Inl ShapeError
      | t # _ \<Rightarrow>
          if list_ex (\<lambda>u. shape u \<noteq> shape t) ts then Inl ShapeError
          else Inr \<lparr> shape = length ts # shape t, data = concat (map data ts) \<rparr>)"

subsection \<open>The layers of \<^verbatim>\<open>AffineNet\<close>\<close>

datatype layer =
    Conv3d nat nat nat
  | MaxPool3d nat nat
  | BatchNorm3d nat
  | Dropout real
  | PReLU
  | Linear nat nat

text \<open>
  What each layer does to the shape of its input (no padding, unit dilation, stride one
  for the convolution). The flag says whether the module is in training mode, where batch
  normalisation refuses a single value per channel.
\<close>

definition conv_out :: "nat \<Rightarrow> nat \<Rightarrow> nat" where
  "conv_out k d = d + 1 - k"

definition pool_out :: "nat \<Rightarrow> nat \<Rightarrow> nat \<Rightarrow> nat" where
  "pool_out k s d = (d - k) div s + 1"

fun layer_shape :: "bool \<Rightarrow> layer \<Rightarrow> nat list \<Rightarrow> error + nat list" where
  "layer_shape tr (Conv3d cin cout k) [b, c, d, h, w] =
     (if c = cin \<and> k \<le> d \<and> k \<le> h \<and> k \<le> w
      then Inr [b, cout, conv_out k d, conv_out k h, conv_out k w] else Inl ShapeError)"
| "layer_shape tr (Conv3d cin cout k) [c, d, h, w] =
     (if c = cin \<and> k \<le> d \<and> k \<le> h \<and> k \<le> w
      then Inr [cout, conv_out k d, conv_out k h, conv_out k w] else Inl ShapeError)"
| "layer_shape tr (Conv3d cin cout k) _ = Inl ShapeError"
| "layer_shape tr (MaxPool3d k s) [b, c, d, h, w] =
     (if 0 < s \<and> k \<le> d \<and> k \<le> h \<and> k \<le> w
      then Inr [b, c, pool_out k s d, pool_out k s h, pool_out k s w] else Inl ShapeError)"
| "layer_shape tr (MaxPool3d k s) [c, d, h, w] =
     (if 0 < s \<and> k \<le> d \<and> k \<le> h \<and> k \<le> w
      then Inr [c, pool_out k s d, pool_out k s h, pool_out k s w] else Inl ShapeError)"
| "layer_shape tr (MaxPool3d k s) _ = Inl ShapeError"
| "layer_shape tr (BatchNorm3d n) [b, c, d, h, w] =
     (if c \<noteq> n then Inl ShapeError
      else if tr \<and> b * (d * h * w) = 1 then Inl ShapeError
      else Inr [b, c, d, h, w])"
| "layer_shape tr (BatchNorm3d n) _ = Inl ShapeError"
| "layer_shape tr (Dropout p) sh = Inr sh"
| "layer_shape tr PReLU sh = Inr sh"
| "layer_shape tr (Linear fin fout) sh =
     (if sh \<noteq> [] \<and> last sh = fin then Inr (butlast sh @ [fout]) else Inl ShapeError)"

fun sequential_shape :: "bool \<Rightarrow> layer list \<Rightarrow> nat list \<Rightarrow> error + nat list" where
  "sequential_shape tr [] sh = Inr sh"
| "sequential_shape tr (l # ls) sh = and_then (layer_shape tr l sh) (sequential_shape tr ls)"

definition dropout_p :: real where
  "dropout_p = 0.2"

definition loc_C1 :: nat where
  "loc_C1 = 8"

definition loc_C2 :: nat where
  "loc_C2 = 16"

definition loc_C3 :: nat where
  "loc_C3 = 32"

definition localization :: "layer list" where
  "localization =
     [ Conv3d 2 loc_C1 5,
       MaxPool3d 2 2,
       BatchNorm3d loc_C1, Dropout dropout_p,
       PReLU,
       Conv3d loc_C1 loc_C2 3,
       MaxPool3d 2 2,
       BatchNorm3d loc_C2, Dropout dropout_p,
       PReLU,
       Conv3d loc_C2 loc_C3 3,
       BatchNorm3d loc_C3, Dropout dropout_p,
       PReLU ]"

definition S0 :: nat where
  \<comment> \<open>the spatial size expected after \<open>localization\<close>; no subtraction truncates for \<open>S = 64\<close>\<close>
  "S0 = ((S - 4) div 2 - 2) div 2 - 2"

definition fc_loc :: "layer list" where
  "fc_loc = [Linear (loc_C3 * S0 ^ 3) (4 * 3)]"

text \<open>
  The state of the network. The numbers computed by the convolution stack depend on
  weights, batch statistics and dropout masks that no statement below looks at: they are
  one unconstrained function of the input. The regressor's weight has one row per output.
\<close>

record affine_net =
  localization_values :: "tensor \<Rightarrow> real list"
  fc_weight :: "real list list"
  fc_bias :: "real list"
  training :: bool

definition dot :: "real list \<Rightarrow> real list \<Rightarrow> real" where
  "dot xs ys = sum_list (map2 (*) xs ys)"

definition linear_row :: "real list list \<Rightarrow> real list \<Rightarrow> real list \<Rightarrow> real list" where
  \<comment> \<open>\<^verbatim>\<open>x @ W.T + b\<close> for one row \<open>x\<close>\<close>
  "linear_row W b x = map2 (\<lambda>w bi. dot w x + bi) W b"

definition apply_localization :: "affine_net \<Rightarrow> tensor \<Rightarrow> error + tensor" where
  "apply_localization net x =
     and_then (sequential_shape (training net) localization (shape x))
       (\<lambda>sh. Inr \<lparr> shape = sh, data = localization_values net x \<rparr>)"

definition apply_fc_loc :: "affine_net \<Rightarrow> tensor \<Rightarrow> error + tensor" where
  "apply_fc_loc net xs =
     and_then (sequential_shape (training net) fc_loc (shape xs))
       (\<lambda>sh. Inr \<lparr> shape = sh,
                   data = concat (map (linear_row (fc_weight net) (fc_bias net))
                                      (rows_of (loc_C3 * S0 ^ 3) (data xs))) \<rparr>)"

text \<open>
  The constructor: the regressor is created with default (random) parameters \<open>w0\<close>,
  \<open>b0\<close>, then its weight is zeroed in place and its bias overwritten.
\<close>

definition zero_inplace :: "real list list \<Rightarrow> real list list" where
  "zero_inplace W = map (map (\<lambda>_. 0)) W"

definition copy_inplace :: "real list \<Rightarrow> real list \<Rightarrow> error + real list" where
  "copy_inplace dst src = (if length src = length dst then Inr src else Inl ShapeError)"

definition AffineNet_init ::
  "(tensor \<Rightarrow> real list) \<Rightarrow> (nat \<Rightarrow> nat \<Rightarrow> real) \<Rightarrow> (nat \<Rightarrow> real) \<Rightarrow> error + affine_net" where
  "AffineNet_init lv w0 b0 =
     (let W = map (\<lambda>i. map (w0 i) [0..<loc_C3 * S0 ^ 3]) [0..<4 * 3];
          b = map b0 [0..<4 * 3]
      in and_then (copy_inplace b [1, 0, 0, 0, 0, 1, 0, 0, 0, 0, 1, 0])
           (\<lambda>b'. Inr \<lparr> localization_values = lv, fc_weight = zero_inplace W, fc_bias = b',
                        training = True \<rparr>))"

text \<open>
  The two sampling primitives of the framework: their shapes are modelled, the numbers
  they compute are unconstrained functions of their arguments. \<^verbatim>\<open>affine_grid\<close> (called
  without corner alignment) wants one 3-by-4 matrix per element of the batch and rejects a
  size with an entry that is not positive; \<^verbatim>\<open>grid_sample\<close> wants a grid for each element
  of the batch and an input whose spatial dimensions are not empty.
\<close>

record sampling =
  grid_values :: "tensor \<Rightarrow> nat list \<Rightarrow> real list"
  sample_values :: "tensor \<Rightarrow> tensor \<Rightarrow> real list"

definition affine_grid :: "sampling \<Rightarrow> tensor \<Rightarrow> nat list \<Rightarrow> error + tensor" where
  "affine_grid P theta sz =
     (case (shape theta, sz) of
        ([n, r, c], [n', ch, d, h, w]) \<Rightarrow>
          if n = n' \<and> r = 3 \<and> c = 4 \<and> list_all (\<lambda>k. 0 < k) sz
          then Inr \<lparr> shape = [n, d, h, w, 3], data = grid_values P theta sz \<rparr>
          else Inl ShapeError
      | ([n, r, c], [n', ch, h, w]) \<Rightarrow>
          if n = n' \<and> r = 2 \<and> c = 3 \<and> list_all (\<lambda>k. 0 < k) sz
          then Inr \<lparr> shape = [n, h, w, 2], data = grid_values P theta sz \<rparr>
          else Inl ShapeError
      | _ \<Rightarrow> Inl ShapeError)"

definition grid_sample :: "sampling \<Rightarrow> tensor \<Rightarrow> tensor \<Rightarrow> error + tensor" where
  "grid_sample P inp grid =
     (case (shape inp, shape grid) of
        ([n, c, d, h, w], [n', d', h', w', k]) \<Rightarrow>
          if n = n' \<and> k = 3 \<and> 0 < d \<and> 0 < h \<and> 0 < w
          then Inr \<lparr> shape = [n, c, d', h', w'], data = sample_values P inp grid \<rparr>
          else Inl ShapeError
      | ([n, c, h, w], [n', h', w', k]) \<Rightarrow>
          if n = n' \<and> k = 2 \<and> 0 < h \<and> 0 < w
          then Inr \<lparr> shape = [n, c, h', w'], data = sample_values P inp grid \<rparr>
          else Inl ShapeError
      | _ \<Rightarrow> Inl ShapeError)"

definition localization_ok :: "nat list \<Rightarrow> bool" where
  \<comment> \<open>the condition of the \<^verbatim>\<open>assert\<close> in \<^verbatim>\<open>forward\<close>\<close>
  "localization_ok sh = (card (set (drop 2 sh)) = 1 \<and> sh ! 2 = S0)"

definition forward :: "sampling \<Rightarrow> affine_net \<Rightarrow> tensor \<Rightarrow> error + (tensor \<times> tensor)" where
  "forward P net x =
     and_then (apply_localization net x) (\<lambda>xs.
     if \<not> localization_ok (shape xs) then Inl AssertionError else
     and_then (view [- 1, int (loc_C3 * S0 ^ 3)] xs) (\<lambda>xs.
     and_then (apply_fc_loc net xs) (\<lambda>theta.
     and_then (view [- 1, 3, 4] theta) (\<lambda>theta.
     and_then (affine_grid P theta (shape x)) (\<lambda>grid.
     and_then (select_channels [1] x) (\<lambda>moving.
     and_then (grid_sample P moving grid) (\<lambda>x'.
     Inr (theta, x'))))))))"

subsection \<open>Matrices and the linear-algebra primitives\<close>

text \<open>
  A two-dimensional tensor is the list of its rows. \<open>matmul\<close>, \<open>linalg_solve\<close> and
  \<open>linalg_inv\<close> stand for \<^verbatim>\<open>torch.matmul\<close>, \<^verbatim>\<open>torch.linalg.solve\<close> and
  \<^verbatim>\<open>torch.linalg.inv\<close>. The solver is elimination with row pivoting on the augmented
  matrix, carried to the reduced form; in exact arithmetic the choice of the pivot row
  does not change the result, and the first row with a non-zero entry is taken.
\<close>

type_synonym matrix = "real list list"

definition ncols :: "matrix \<Rightarrow> nat" where
  "ncols A = (case A of [] \<Rightarrow> 0 | r # _ \<Rightarrow> length r)"

definition mat :: "nat \<Rightarrow> nat \<Rightarrow> matrix \<Rightarrow> bool" where
  "mat n m A = (length A = n \<and> list_all (\<lambda>r. length r = m) A)"

definition col :: "matrix \<Rightarrow> nat \<Rightarrow> real list" where
  "col A j = map (\<lambda>r. r ! j) A"

definition identity :: "nat \<Rightarrow> matrix" where
  "identity n = map (\<lambda>i. map (\<lambda>j. if i = j then 1 else 0) [0..<n]) [0..<n]"

definition matmul :: "matrix \<Rightarrow> matrix \<Rightarrow> error + matrix" where
  "matmul A B =
     (if mat (length A) (length B) A \<and> mat (length B) (ncols B) B
      then Inr (map (\<lambda>r. map (\<lambda>j. dot r (col B j)) [0..<ncols B]) A)
      else Inl ShapeError)"

definition scale_row :: "real \<Rightarrow> real list \<Rightarrow> real list" where
  "scale_row c r = map (\<lambda>x. c * x) r"

definition eliminate :: "nat \<Rightarrow> real list \<Rightarrow> real list \<Rightarrow> real list" where
  \<comment> \<open>subtract from \<open>r\<close> the multiple of the pivot row \<open>q\<close> that clears column \<open>k\<close>\<close>
  "eliminate k q r = map2 (\<lambda>x y. x - r ! k * y) r q"

function gauss_jordan :: "nat \<Rightarrow> matrix \<Rightarrow> matrix \<Rightarrow> matrix option" where
  "gauss_jordan k finished todo =
     (if todo = [] then Some finished
      else
        (case find (\<lambda>r. r ! k \<noteq> 0) todo of
           None \<Rightarrow> None
         | Some p \<Rightarrow>
             (let q = scale_row (1 / p ! k) p in
              gauss_jordan (Suc k) (map (eliminate k q) finished @ [q])
                (map (eliminate k q) (remove1 p todo)))))"
  by pat_completeness auto
termination
proof (relation "measure (\<lambda>(k, finished, todo). length todo)")
  show "wf (measure (\<lambda>(k, finished, todo). length todo))"
    by simp
next
  fix k :: nat and finished todo :: matrix and p q :: "real list"
  assume nonempty: "todo \<noteq> []" and found: "find (\<lambda>r. r ! k \<noteq> 0) todo = Some p"
  from found have "p \<in> set todo"
    by (auto simp: find_Some_iff)
  then have "length (remove1 p todo) < length todo"
    by (simp add: length_remove1) (cases todo, auto)
  then show "((Suc k, map (eliminate k q) finished @ [q], map (eliminate k q) (remove1 p todo)),
              (k, finished, todo)) \<in> measure (\<lambda>(k, finished, todo). length todo)"
    by simp
qed

definition linalg_solve :: "matrix \<Rightarrow> matrix \<Rightarrow> error + matrix" where
  "linalg_solve A B =
     (if \<not> (mat (length A) (length A) A \<and> mat (length A) (ncols B) B) then Inl ShapeError
      else
        (case gauss_jordan 0 [] (map2 (@) A B) of
           None \<Rightarrow> Inl LinAlgError
         | Some R \<Rightarrow> Inr (map (drop (length A)) R)))"

definition linalg_inv :: "matrix \<Rightarrow> error + matrix" where
  "linalg_inv A = linalg_solve A (identity (length A))"

text \<open>
  The regressor of every \<^verbatim>\<open>AffineNet\<close> is \<^verbatim>\<open>Linear(loc_C3 * S0**3, 4*3)\<close>: a weight
  of twelve rows of \<open>loc_C3 * S0^3\<close> numbers and a bias of twelve numbers.
\<close>

definition wf_net :: "affine_net \<Rightarrow> bool" where
  "wf_net net = (mat (4 * 3) (loc_C3 * S0 ^ 3) (fc_weight net) \<and> length (fc_bias net) = 4 * 3)"

subsection \<open>The matrix of a random affine\<close>












subsection \<open>The known transform of a sample\<close>

text \<open>
  A sample of the dataset: the two images, their concatenation, and for each image the
  trace of the transforms applied to it, each with its class name and extra information.
\<close>

record applied_transform =
  cls :: string
  extra_info :: "string \<rightharpoonup> matrix"

record sample =
  fixed :: tensor
  moving :: tensor
  fm :: tensor
  fixed_transforms :: "applied_transform list"
  moving_transforms :: "applied_transform list"

definition concat_items :: "sample \<Rightarrow> error + sample" where
  \<comment> \<open>\<^verbatim>\<open>ConcatItemsD(keys=['fixed', 'moving'], name='fm', dim=0)\<close>\<close>
  "concat_items d = and_then (cat0 [fixed d, moving d]) (\<lambda>t. Inr (d\<lparr>fm := t\<rparr>))"

text \<open>
  What the pipeline hands over for one sample: after \<^verbatim>\<open>AddChannelD\<close> and
  \<^verbatim>\<open>ResizeD\<close> each image is a well-formed tensor of shape \<open>(1, S, S, S)\<close>, and
  \<open>fm\<close> is what \<open>concat_items\<close> made of them.
\<close>

definition pipeline_sample :: "sample \<Rightarrow> bool" where
  "pipeline_sample d =
     (shape (fixed d) = [1, S, S, S] \<and> wf_tensor (fixed d)
      \<and> shape (moving d) = [1, S, S, S] \<and> wf_tensor (moving d)
      \<and> concat_items d = Inr d)"

definition recorded_affine :: "applied_transform list \<Rightarrow> error + matrix" where
  \<comment> \<open>\<^verbatim>\<open>[t for t in ts if t['class']=='RandAffined'][0]['extra_info']['affine']\<close>\<close>
  "recorded_affine ts =
     (case filter (\<lambda>t. cls t = ''RandAffined'') ts of
        [] \<Rightarrow> Inl IndexError
      | t # _ \<Rightarrow> (case extra_info t ''affine'' of None \<Rightarrow> Inl KeyError | Some A \<Rightarrow> Inr A))"

definition get_perfect_transform_monai_coords :: "sample \<Rightarrow> error + matrix" where
  "get_perfect_transform_monai_coords d =
     and_then (recorded_affine (fixed_transforms d)) (\<lambda>phi1.
     and_then (recorded_affine (moving_transforms d)) (\<lambda>phi2.
     linalg_solve phi2 phi1))"

definition N :: matrix where
  "N = [[0, 0, 2 / real (S - 1), 0],
        [0, 2 / real (S - 1), 0, 0],
        [2 / real (S - 1), 0, 0, 0],
        [0, 0, 0, 1]]"

definition get_perfect_transform_torch_coords :: "sample \<Rightarrow> error + matrix" where
  "get_perfect_transform_torch_coords d =
     and_then (get_perfect_transform_monai_coords d) (\<lambda>theta.
     and_then (linalg_inv N) (\<lambda>Ninv.
     and_then (matmul theta Ninv) (\<lambda>T.
     matmul N T)))"

subsection \<open>The loss of a training step\<close>

fun collect :: "(error + 'a) list \<Rightarrow> error + 'a list" where
  \<comment> \<open>a list comprehension: the first exception raised by an element ends it\<close>
  "collect [] = Inr []"
| "collect (m # ms) = and_then m (\<lambda>v. and_then (collect ms) (\<lambda>vs. Inr (v # vs)))"

definition as_tensor :: "matrix \<Rightarrow> tensor" where
  "as_tensor A = \<lparr> shape = [length A, ncols A], data = concat A \<rparr>"

definition first_rows :: "nat \<Rightarrow> tensor \<Rightarrow> error + tensor" where
  \<comment> \<open>\<^verbatim>\<open>t[:, :k]\<close>\<close>
  "first_rows k t =
     (case shape t of
        b # r # rest \<Rightarrow>
          (let inner = prod_list rest in
           Inr \<lparr> shape = b # min k r # rest,
                 data = concat (map (take (min k r * inner)) (rows_of (r * inner) (data t))) \<rparr>)
      | _ \<Rightarrow> Inl IndexError)"

definition squared_error_sum :: "tensor \<Rightarrow> tensor \<Rightarrow> error + real" where
  \<comment> \<open>\<^verbatim>\<open>((theta - perfect_theta)**2).sum()\<close>, for operands of one shape (the only case
      that arises; broadcasting between different shapes is not modelled)\<close>
  "squared_error_sum t u =
     (if shape t = shape u
      then Inr (sum_list (map (\<lambda>x. x ^ 2) (map2 (-) (data t) (data u))))
      else Inl ShapeError)"

definition perfect_theta_of :: "sample list \<Rightarrow> error + tensor" where
  "perfect_theta_of batch =
     and_then (collect (map get_perfect_transform_torch_coords batch)) (\<lambda>ms.
     and_then (stack (map as_tensor ms)) (\<lambda>st.
     first_rows 3 st))"

definition training_loss ::
  "(tensor \<Rightarrow> error + (tensor \<times> tensor)) \<Rightarrow> sample list \<Rightarrow> error + real" where
  \<comment> \<open>the loss of one step: the batch is the list of its samples, \<^verbatim>\<open>batch['fm']\<close> their
      stacked concatenated images\<close>
  "training_loss model batch =
     and_then (stack (map fm batch)) (\<lambda>x.
     and_then (model x) (\<lambda>(theta, warped).
     and_then (perfect_theta_of batch) (\<lambda>perfect_theta.
     squared_error_sum theta perfect_theta)))"

subsection \<open>Notions used in the proofs about the solver\<close>

definition reduced :: "nat \<Rightarrow> matrix \<Rightarrow> matrix \<Rightarrow> bool" where
  \<comment> \<open>after \<open>k\<close> steps: \<open>k\<close> finished rows, whose first \<open>k\<close> columns are those of the
      identity, and remaining rows whose first \<open>k\<close> columns are zero\<close>
  "reduced k finished todo =
     (length finished = k
      \<and> (\<forall>i<k. \<forall>j<k. finished ! i ! j = (if i = j then 1 else 0))
      \<and> (\<forall>r \<in> set todo. \<forall>j<k. r ! j = 0))"

definition kernel_in :: "nat \<Rightarrow> matrix \<Rightarrow> real list \<Rightarrow> bool" where
  \<comment> \<open>\<open>z\<close> is annihilated by every row and vanishes from position \<open>n\<close> on\<close>
  "kernel_in n rows z = ((\<forall>r \<in> set rows. dot r z = 0) \<and> (\<forall>j. n \<le> j \<and> j < length z \<longrightarrow> z ! j = 0))"

subsection \<open>A concrete sample\<close>

text \<open>
  A sample on which the statements below are instantiated: the fixed image was translated,
  the moving image rotated by a quarter turn.
\<close>

definition example_phi1 :: matrix where
  "example_phi1 = [[1, 0, 0, 2], [0, 1, 0, 0], [0, 0, 1, 0], [0, 0, 0, 1]]"

definition example_phi2 :: matrix where
  "example_phi2 = [[0, - 1, 0, 0], [1, 0, 0, 0], [0, 0, 1, 0], [0, 0, 0, 1]]"

definition example_sample :: sample where
  "example_sample =
     \<lparr> fixed = \<lparr>shape = [1, S, S, S], data = replicate (S * S * S) 0\<rparr>,
       moving = \<lparr>shape = [1, S, S, S], data = replicate (S * S * S) 1\<rparr>,
       fm = \<lparr>shape = [2, S, S, S], data = replicate (S * S * S) 0 @ replicate (S * S * S) 1\<rparr>,
       fixed_transforms =
         [\<lparr>cls = ''Resized'', extra_info = Map.empty\<rparr>,
          \<lparr>cls = ''RandAffined'', extra_info = [''affine'' \<mapsto> example_phi1]\<rparr>],
       moving_transforms =
         [\<lparr>cls = ''Resized'', extra_info = Map.empty\<rparr>,
          \<lparr>cls = ''RandAffined'', extra_info = [''affine'' \<mapsto> example_phi2]\<rparr>] \<rparr>"

text \<open>
  A network whose regressor has non-zero weights and whose convolution stack returns the
  feature value 2 everywhere, and sampling primitives that hand their argument's numbers
  on: the grid stores the numbers of \<open>theta\<close>, the sampled volume those of the grid.
\<close>

definition example_net :: affine_net where
  "example_net =
     \<lparr> localization_values = (\<lambda>x. replicate (hd (shape x) * (loc_C3 * S0 ^ 3)) 2),
       fc_weight = replicate (4 * 3) (replicate (loc_C3 * S0 ^ 3) (1 / real (loc_C3 * S0 ^ 3))),
       fc_bias = [1, 0, 0, 0, 0, 1, 0, 0, 0, 0, 1, 0],
       training = True \<rparr>"

definition example_probe :: sampling where
  "example_probe = \<lparr> grid_values = (\<lambda>t sz. data t), sample_values = (\<lambda>inp g. data g) \<rparr>"

subsection \<open>The model-saving cell\<close>

text \<open>
  The file system is a map from paths to file contents. \<^verbatim>\<open>torch.save\<close> either writes
  the whole file or fails after writing some part of it; which of the two happens is the
  parameter \<open>outcome\<close>.
\<close>

type_synonym 'c fs = "string \<rightharpoonup> 'c"

datatype 'c save_outcome = Saved | SaveFailed "'c option"

definition torch_save :: "'c save_outcome \<Rightarrow> 'c \<Rightarrow> string \<Rightarrow> 'c fs \<Rightarrow> (error + unit) \<times> 'c fs" where
  "torch_save outcome obj path files =
     (case outcome of
        Saved \<Rightarrow> (Inr (), files(path \<mapsto> obj))
      | SaveFailed partial \<Rightarrow>
          (Inl (Exception ''torch.save failed''),
           (case partial of None \<Rightarrow> files | Some c \<Rightarrow> files(path \<mapsto> c))))"

definition path_exists :: "string \<Rightarrow> 'c fs \<Rightarrow> bool" where
  "path_exists path files = (files path \<noteq> None)"

definition save_path_of :: "string \<Rightarrow> string" where
  \<comment> \<open>the f-string \<^verbatim>\<open>f'model_{run_id}.pth'\<close>\<close>
  "save_path_of run_id = ''model_'' @ run_id @ ''.pth''"

definition save_model :: "'c save_outcome \<Rightarrow> string \<Rightarrow> 'c \<Rightarrow> 'c fs \<Rightarrow> (error + unit) \<times> 'c fs" where
  "save_model outcome run_id state_dict files =
     (let save_path = save_path_of run_id in
      if path_exists save_path files
      then (Inl (Exception ''change run_id before saving''), files)
      else torch_save outcome state_dict save_path files)"

definition run_id :: string where
  "run_id = ''002''"

section \<open>Theorems\<close>

lemma and_then_Inr [simp]: "and_then (Inr v) f = f v"
  by (simp add: and_then_def)

lemma and_then_Inl [simp]: "and_then (Inl e) f = Inl e"
  by (simp add: and_then_def)

lemma and_then_eq_Inr:
  "and_then m f = Inr y \<longleftrightarrow> (\<exists>v. m = Inr v \<and> f v = Inr y)"
  by (cases m) simp_all

subsection \<open>Shapes through the network\<close>

lemma S0_value: "S0 = 12"
  by (simp add: S0_def S_def)

lemma localization_shape:
  "sequential_shape tr localization [B, 2, S, S, S] = Inr [B, loc_C3, S0, S0, S0]"
  by (simp add: localization_def S_def S0_def loc_C1_def loc_C2_def loc_C3_def
      conv_out_def pool_out_def)

lemma apply_localization_shape:
  "shape x = [B, 2, S, S, S] \<Longrightarrow>
   apply_localization net x =
     Inr \<lparr>shape = [B, loc_C3, S0, S0, S0], data = localization_values net x\<rparr>"
  by (simp add: apply_localization_def localization_shape)

lemma localization_ok_cube: "localization_ok [B, C, S0, S0, S0]"
  by (simp add: localization_ok_def)

lemma view_flatten:
  "n = int (loc_C3 * S0 ^ 3) \<Longrightarrow>
   view [- 1, n] \<lparr>shape = [B, loc_C3, S0, S0, S0], data = d\<rparr>
     = Inr \<lparr>shape = [B, loc_C3 * S0 ^ 3], data = d\<rparr>"
  by (simp add: view_def numel_def S0_value loc_C3_def power3_eq_cube)

lemma fc_loc_shape: "sequential_shape tr fc_loc [B, loc_C3 * S0 ^ 3] = Inr [B, 12]"
  by (simp add: fc_loc_def)

lemma view_theta:
  "view [- 1, 3, 4] \<lparr>shape = [B, 12], data = d\<rparr> = Inr \<lparr>shape = [B, 3, 4], data = d\<rparr>"
  by (simp add: view_def numel_def)

lemma apply_fc_loc_flat:
  "apply_fc_loc net \<lparr>shape = [B, loc_C3 * S0 ^ 3], data = d\<rparr> =
     Inr \<lparr>shape = [B, 12],
          data = concat (map (linear_row (fc_weight net) (fc_bias net))
                             (rows_of (loc_C3 * S0 ^ 3) d))\<rparr>"
  by (simp add: apply_fc_loc_def fc_loc_shape)

text \<open>
  The whole of \<open>forward\<close> on a batch of the notebook's shape, stage by stage. The
  regression stages run for any \<open>B\<close>; the grid is refused for the empty batch.
\<close>

lemma forward_on_batch:
  assumes "shape x = [B, 2, S, S, S]" and "0 < B"
  shows "forward P net x =
           (let theta = \<lparr>shape = [B, 3, 4],
                         data = concat (map (linear_row (fc_weight net) (fc_bias net))
                                  (rows_of (loc_C3 * S0 ^ 3) (localization_values net x)))\<rparr>;
                grid = \<lparr>shape = [B, S, S, S, 3], data = grid_values P theta (shape x)\<rparr>;
                mv = \<lparr>shape = [B, 1, S, S, S],
                      data = concat (map (\<lambda>blk. take (S * (S * S)) (drop (S * (S * S)) blk))
                               (rows_of (2 * (S * (S * S))) (data x)))\<rparr>
            in Inr (theta, \<lparr>shape = [B, 1, S, S, S], data = sample_values P mv grid\<rparr>))"
  using assms
  by (simp add: forward_def apply_localization_shape localization_ok_cube view_flatten
      apply_fc_loc_flat view_theta affine_grid_def select_channels_def grid_sample_def Let_def
      S_def)

lemma forward_on_empty_batch:
  assumes "shape x = [0, 2, S, S, S]"
  shows "forward P net x = Inl ShapeError"
  using assms
  by (simp add: forward_def apply_localization_shape localization_ok_cube view_flatten
      apply_fc_loc_flat view_theta affine_grid_def)

text \<open>
  C9. On every input of shape \<open>(B, 2, 64, 64, 64)\<close> the localization stack returns a
  tensor with three spatial dimensions all equal to \<open>S0 = ((S-4) div 2 - 2) div 2 - 2 = 12\<close>,
  so the condition of the assertion holds, \<open>forward\<close> does not raise the assertion error,
  and the flattening to rows of \<open>loc_C3 * S0^3\<close> features succeeds.
\<close>

theorem localization_assert_holds:
  assumes "shape x = [B, 2, S, S, S]"
  shows "S0 = 12
         \<and> (\<exists>xs. apply_localization net x = Inr xs
                \<and> shape xs = [B, loc_C3, S0, S0, S0]
                \<and> localization_ok (shape xs)
                \<and> (\<exists>flat. view [- 1, int (loc_C3 * S0 ^ 3)] xs = Inr flat
                          \<and> shape flat = [B, loc_C3 * S0 ^ 3]))
         \<and> forward P net x \<noteq> Inl AssertionError"
proof (intro conjI)
  show "S0 = 12"
    by (rule S0_value)
  show "\<exists>xs. apply_localization net x = Inr xs
          \<and> shape xs = [B, loc_C3, S0, S0, S0]
          \<and> localization_ok (shape xs)
          \<and> (\<exists>flat. view [- 1, int (loc_C3 * S0 ^ 3)] xs = Inr flat
                    \<and> shape flat = [B, loc_C3 * S0 ^ 3])"
    using assms
    by (simp only: apply_localization_shape) (simp add: localization_ok_cube view_flatten)
  show "forward P net x \<noteq> Inl AssertionError"
  proof (cases "0 < B")
    case True
    with assms show ?thesis
      by (simp add: forward_on_batch Let_def)
  next
    case False
    with assms show ?thesis
      by (simp add: forward_on_empty_batch)
  qed
qed

theorem localization_assert_holds_witness:
  "shape \<lparr>shape = [1, 2, S, S, S], data = replicate (2 * S * S * S) 1\<rparr> = [1, 2, S, S, S]
   \<and> localization_ok [1, loc_C3, S0, S0, S0]
   \<and> forward \<lparr>grid_values = (\<lambda>t sz. []), sample_values = (\<lambda>t g. [])\<rparr>
       \<lparr>localization_values = (\<lambda>t. []), fc_weight = [], fc_bias = [], training = True\<rparr>
       \<lparr>shape = [1, 2, S, S, S], data = replicate (2 * S * S * S) 1\<rparr> \<noteq> Inl AssertionError"
  using localization_assert_holds
    [of "\<lparr>shape = [1, 2, S, S, S], data = replicate (2 * S * S * S) 1\<rparr>" 1
        "\<lparr>localization_values = (\<lambda>t. []), fc_weight = [], fc_bias = [], training = True\<rparr>"
        "\<lparr>grid_values = (\<lambda>t sz. []), sample_values = (\<lambda>t g. [])\<rparr>"]
  by (simp add: apply_localization_shape)

subsection \<open>Saving the model\<close>

text \<open>
  C10. The save step never overwrites an existing checkpoint: when the file
  \<open>model_{run_id}.pth\<close> exists, the step raises before \<open>torch_save\<close> runs and leaves the
  file system as it was; and whatever the step does, every file that existed before it
  keeps its contents.
\<close>

theorem save_model_never_overwrites:
  "(path_exists (save_path_of rid) files \<longrightarrow>
      save_model outcome rid sd files = (Inl (Exception ''change run_id before saving''), files))
   \<and> (\<forall>p. path_exists p files \<longrightarrow> snd (save_model outcome rid sd files) p = files p)"
  by (auto simp: save_model_def Let_def torch_save_def path_exists_def
      split: save_outcome.splits option.splits)

theorem save_model_never_overwrites_witness:
  "path_exists (save_path_of run_id) [''model_002.pth'' \<mapsto> (7::nat)]
   \<and> save_model Saved run_id 8 [''model_002.pth'' \<mapsto> (7::nat)]
       = (Inl (Exception ''change run_id before saving''), [''model_002.pth'' \<mapsto> 7])"
  using save_model_never_overwrites [of run_id "[''model_002.pth'' \<mapsto> (7::nat)]" Saved 8]
  by (simp add: path_exists_def save_path_of_def run_id_def)

subsection \<open>Rows, dot products and one elimination step\<close>

lemma dot_Nil [simp]: "dot [] ys = 0" "dot xs [] = 0"
  by (simp_all add: dot_def)

lemma dot_Cons [simp]: "dot (x # xs) (y # ys) = x * y + dot xs ys"
  by (simp add: dot_def)

lemma dot_scale_row: "dot (scale_row c r) z = c * dot r z"
proof (induction r arbitrary: z)
  case Nil
  then show ?case by (simp add: scale_row_def)
next
  case (Cons x r)
  then show ?case by (cases z) (simp_all add: scale_row_def algebra_simps)
qed

lemma dot_map2_sub:
  "length r = length q \<Longrightarrow> dot (map2 (\<lambda>x y. x - c * y) r q) z = dot r z - c * dot q z"
proof (induction r q arbitrary: z rule: list_induct2)
  case Nil
  then show ?case by simp
next
  case (Cons x xs y ys)
  then show ?case by (cases z) (simp_all add: algebra_simps)
qed

lemma dot_eliminate:
  "length r = length q \<Longrightarrow> dot (eliminate k q r) z = dot r z - r ! k * dot q z"
  by (simp add: eliminate_def dot_map2_sub)

lemma dot_append:
  "length a = length x \<Longrightarrow> dot (a @ b) (x @ y) = dot a x + dot b y"
  by (induction a x rule: list_induct2) simp_all

lemma dot_nth_sum:
  "length xs = length ys \<Longrightarrow> dot xs ys = (\<Sum>i<length xs. xs ! i * ys ! i)"
proof (induction xs ys rule: list_induct2)
  case Nil
  then show ?case by simp
next
  case (Cons x xs y ys)
  then show ?case by (simp add: sum.lessThan_Suc_shift del: sum.lessThan_Suc)
qed

lemma length_eliminate [simp]: "length (eliminate k q r) = min (length r) (length q)"
  by (simp add: eliminate_def)

lemma length_scale_row [simp]: "length (scale_row c r) = length r"
  by (simp add: scale_row_def)

lemma nth_eliminate:
  "j < length r \<Longrightarrow> j < length q \<Longrightarrow> eliminate k q r ! j = r ! j - r ! k * q ! j"
  by (simp add: eliminate_def)

lemma nth_scale_row: "j < length r \<Longrightarrow> scale_row c r ! j = c * r ! j"
  by (simp add: scale_row_def)

lemma find_pivot:
  assumes "find (\<lambda>r. r ! k \<noteq> 0) todo = Some p"
  shows "p \<in> set todo" "p ! k \<noteq> 0"
  using assms by (auto simp: find_Some_iff)

lemma step_kernel:
  assumes rows: "\<forall>r \<in> set finished \<union> set todo. length r = w"
    and p: "p \<in> set todo" "p ! k \<noteq> 0"
    and q: "q = scale_row (1 / p ! k) p"
  shows "(\<forall>r \<in> set (map (eliminate k q) finished @ [q]) \<union> set (map (eliminate k q) (remove1 p todo)). dot r z = 0)
         \<longleftrightarrow> (\<forall>r \<in> set finished \<union> set todo. dot r z = 0)" (is "?L \<longleftrightarrow> ?R")
proof
  have lenq: "length q = w" using rows p q by simp
  have dq: "dot q z = dot p z / p ! k" by (simp add: q dot_scale_row)
  have de: "dot (eliminate k q r) z = dot r z - r ! k * dot q z" if "r \<in> set finished \<union> set todo" for r
    using that rows lenq by (intro dot_eliminate) auto
  {
    assume R: ?R
    then have "dot p z = 0" using p by blast
    then have q0: "dot q z = 0" by (simp add: dq)
    show ?L
    proof
      fix r assume "r \<in> set (map (eliminate k q) finished @ [q]) \<union> set (map (eliminate k q) (remove1 p todo))"
      then consider "r = q" | r' where "r = eliminate k q r'" "r' \<in> set finished \<union> set todo"
        using set_remove1_subset[of p todo] by auto
      then show "dot r z = 0"
      proof cases
        case 1 then show ?thesis by (simp add: q0)
      next
        case 2 then show ?thesis using R by (simp add: de q0)
      qed
    qed
  }
  {
    assume L: ?L
    then have q0: "dot q z = 0" by simp
    then have p0: "dot p z = 0" using p by (simp add: dq)
    show ?R
    proof
      fix r assume r: "r \<in> set finished \<union> set todo"
      show "dot r z = 0"
      proof (cases "r = p")
        case True then show ?thesis by (simp add: p0)
      next
        case False
        with r have "eliminate k q r \<in> set (map (eliminate k q) finished @ [q]) \<union> set (map (eliminate k q) (remove1 p todo))"
          by auto
        with L have "dot (eliminate k q r) z = 0" by blast
        then show ?thesis using de[OF r] q0 by simp
      qed
    qed
  }
qed

lemma step_rows:
  assumes rows: "\<forall>r \<in> set finished \<union> set todo. length r = w"
    and p: "p \<in> set todo"
    and q: "q = scale_row c p"
  shows "\<forall>r \<in> set (map (eliminate k q) finished @ [q]) \<union> set (map (eliminate k q) (remove1 p todo)). length r = w"
  using assms set_remove1_subset[of p todo] by auto

lemma gauss_jordan_kernel:
  assumes "gauss_jordan k finished todo = Some R"
    and "\<forall>r \<in> set finished \<union> set todo. length r = w"
  shows "(\<forall>r \<in> set R. dot r z = 0) \<longleftrightarrow> (\<forall>r \<in> set finished \<union> set todo. dot r z = 0)"
  using assms
proof (induction k finished todo rule: gauss_jordan.induct)
  case (1 k finished todo)
  show ?case
  proof (cases "todo = []")
    case True
    with "1.prems" show ?thesis by (simp add: gauss_jordan.simps[of k finished todo])
  next
    case False
    with "1.prems"(1) obtain p where found: "find (\<lambda>r. r ! k \<noteq> 0) todo = Some p"
      by (auto simp: gauss_jordan.simps[of k finished todo] split: option.splits)
    define q where "q = scale_row (1 / p ! k) p"
    from found have p: "p \<in> set todo" "p ! k \<noteq> 0" by (rule find_pivot)+
    have rec: "gauss_jordan (Suc k) (map (eliminate k q) finished @ [q]) (map (eliminate k q) (remove1 p todo)) = Some R"
      using "1.prems"(1) False found by (simp add: gauss_jordan.simps[of k finished todo] q_def Let_def)
    have rows': "\<forall>r \<in> set (map (eliminate k q) finished @ [q]) \<union> set (map (eliminate k q) (remove1 p todo)). length r = w"
      using step_rows[OF "1.prems"(2) p(1) q_def] .
    from "1.IH"[OF False found q_def rec rows']
    show ?thesis using step_kernel[OF "1.prems"(2) p q_def] by simp
  qed
qed

subsection \<open>The elimination reaches the reduced form\<close>

lemma step_reduced:
  assumes red: "reduced k finished todo"
    and rows: "\<forall>r \<in> set finished \<union> set todo. length r = w"
    and kw: "k < w"
    and p: "p \<in> set todo" "p ! k \<noteq> 0"
    and q: "q = scale_row (1 / p ! k) p"
  shows "reduced (Suc k) (map (eliminate k q) finished @ [q]) (map (eliminate k q) (remove1 p todo))"
proof -
  have lenf: "length finished = k"
    and unit: "\<And>i j. i < k \<Longrightarrow> j < k \<Longrightarrow> finished ! i ! j = (if i = j then 1 else 0)"
    and zero: "\<And>r j. r \<in> set todo \<Longrightarrow> j < k \<Longrightarrow> r ! j = 0"
    using red by (auto simp: reduced_def)
  have lenp: "length p = w" and lenq: "length q = w"
    using rows p q by simp_all
  have qk: "q ! k = 1"
    using p kw lenp by (simp add: q nth_scale_row)
  have qj: "q ! j = 0" if "j < k" for j
    using that kw lenp zero[OF p(1) that] by (simp add: q nth_scale_row)
  have el: "eliminate k q r ! j = r ! j - r ! k * q ! j" if "length r = w" "j \<le> k" for r j
    using that kw lenq by (simp add: nth_eliminate)
  let ?F = "map (eliminate k q) finished @ [q]"
  have F: "?F ! i ! j = (if i = j then 1 else 0)" if "i < Suc k" "j < Suc k" for i j
  proof (cases "i < k")
    case True
    then have row: "?F ! i = eliminate k q (finished ! i)"
      by (simp add: nth_append lenf)
    have len: "length (finished ! i) = w"
      using rows True lenf by simp
    show ?thesis
    proof (cases "j < k")
      case True
      with \<open>i < k\<close> show ?thesis
        by (simp add: row el[OF len] qj unit)
    next
      case False
      with that have "j = k" by simp
      with \<open>i < k\<close> show ?thesis
        by (simp add: row el[OF len] qk)
    qed
  next
    case False
    with that have i: "i = k" by simp
    have row: "?F ! k = q"
      by (simp add: nth_append lenf)
    show ?thesis
      using that i by (cases "j < k") (auto simp: row qj qk less_Suc_eq)
  qed
  have T: "r ! j = 0" if "r \<in> set (map (eliminate k q) (remove1 p todo))" "j < Suc k" for r j
  proof -
    from that(1) obtain r' where r': "r = eliminate k q r'" "r' \<in> set todo"
      using set_remove1_subset[of p todo] by auto
    then have len: "length r' = w"
      using rows by simp
    show ?thesis
    proof (cases "j < k")
      case True
      then show ?thesis
        by (simp add: r'(1) el[OF len] qj zero[OF r'(2)])
    next
      case False
      with that(2) have "j = k" by simp
      then show ?thesis
        by (simp add: r'(1) el[OF len] qk)
    qed
  qed
  show ?thesis
    unfolding reduced_def using F T by (simp add: lenf)
qed

lemma gauss_jordan_reduced:
  assumes "gauss_jordan k finished todo = Some R"
    and "reduced k finished todo"
    and "\<forall>r \<in> set finished \<union> set todo. length r = w"
    and "k + length todo \<le> w"
  shows "reduced (k + length todo) R [] \<and> (\<forall>r \<in> set R. length r = w)"
  using assms
proof (induction k finished todo rule: gauss_jordan.induct)
  case (1 k finished todo)
  show ?case
  proof (cases "todo = []")
    case True
    with "1.prems" show ?thesis
      by (simp add: gauss_jordan.simps[of k finished todo] reduced_def)
  next
    case False
    with "1.prems"(1) obtain p where found: "find (\<lambda>r. r ! k \<noteq> 0) todo = Some p"
      by (auto simp: gauss_jordan.simps[of k finished todo] split: option.splits)
    define q where "q = scale_row (1 / p ! k) p"
    from found have p: "p \<in> set todo" "p ! k \<noteq> 0"
      by (rule find_pivot)+
    have rec: "gauss_jordan (Suc k) (map (eliminate k q) finished @ [q])
                 (map (eliminate k q) (remove1 p todo)) = Some R"
      using "1.prems"(1) False found
      by (simp add: gauss_jordan.simps[of k finished todo] q_def Let_def)
    have kw: "k < w"
      using "1.prems"(4) False by (cases todo) simp_all
    have len: "Suc (length (remove1 p todo)) = length todo"
      using p(1) length_pos_if_in_set[OF p(1)] by (simp add: length_remove1)
    have "reduced (Suc k + length (map (eliminate k q) (remove1 p todo))) R [] \<and> (\<forall>r \<in> set R. length r = w)"
    proof (rule "1.IH"[OF False found q_def rec])
      show "reduced (Suc k) (map (eliminate k q) finished @ [q]) (map (eliminate k q) (remove1 p todo))"
        by (rule step_reduced[OF "1.prems"(2,3) kw p q_def])
      show "\<forall>r \<in> set (map (eliminate k q) finished @ [q]) \<union> set (map (eliminate k q) (remove1 p todo)). length r = w"
        by (rule step_rows[OF "1.prems"(3) p(1) q_def])
      show "Suc k + length (map (eliminate k q) (remove1 p todo)) \<le> w"
        using "1.prems"(4) len by simp
    qed
    moreover have "Suc k + length (map (eliminate k q) (remove1 p todo)) = k + length todo"
      using len by simp
    ultimately show ?thesis
      by metis
  qed
qed

subsection \<open>The elimination succeeds on a matrix with trivial kernel\<close>

lemma no_pivot_kernel:
  assumes red: "reduced k finished todo"
    and rows: "\<forall>r \<in> set finished \<union> set todo. length r = w"
    and kw: "k < w"
    and none: "\<forall>r \<in> set todo. r ! k = 0"
  defines "z \<equiv> map (\<lambda>j. if j < k then - (finished ! j ! k) else if j = k then 1 else 0) [0..<w]"
  shows "\<forall>r \<in> set finished \<union> set todo. dot r z = 0"
proof
  fix r assume r: "r \<in> set finished \<union> set todo"
  have lenf: "length finished = k"
    and unit: "\<And>i j. i < k \<Longrightarrow> j < k \<Longrightarrow> finished ! i ! j = (if i = j then 1 else 0)"
    and zero: "\<And>r j. r \<in> set todo \<Longrightarrow> j < k \<Longrightarrow> r ! j = 0"
    using red by (auto simp: reduced_def)
  have lenr: "length r = w" using rows r by blast
  have lenz: "length z = w" by (simp add: z_def)
  have sum: "dot r z = (\<Sum>j<w. r ! j * z ! j)"
    using dot_nth_sum[of r z] lenr lenz by simp
  from r show "dot r z = 0"
  proof
    assume "r \<in> set finished"
    then obtain i where i: "i < k" "r = finished ! i"
      by (auto simp: in_set_conv_nth lenf)
    have "r ! j * z ! j = (if j = i then - (r ! k) else 0) + (if j = k then r ! k else 0)"
      if "j < w" for j
      using that i unit[of i j] by (auto simp: z_def)
    then have "dot r z = (\<Sum>j<w. (if j = i then - (r ! k) else 0) + (if j = k then r ! k else 0))"
      by (simp add: sum)
    also have "\<dots> = - (r ! k) + r ! k"
      using i(1) kw by (simp add: sum.distrib)
    finally show ?thesis by simp
  next
    assume t: "r \<in> set todo"
    have "r ! j * z ! j = 0" if "j < w" for j
      using that zero[OF t, of j] none t by (auto simp: z_def)
    then have "(\<Sum>j<w. r ! j * z ! j) = (\<Sum>j<w. 0)"
      by (intro sum.cong) simp_all
    then show ?thesis by (simp add: sum)
  qed
qed

lemma gauss_jordan_succeeds:
  assumes "reduced k finished todo"
    and "\<forall>r \<in> set finished \<union> set todo. length r = w"
    and "k + length todo = n" and "n \<le> w"
    and "\<forall>z. length z = w \<longrightarrow> kernel_in n (finished @ todo) z \<longrightarrow> (\<forall>j<n. z ! j = 0)"
  shows "gauss_jordan k finished todo \<noteq> None"
  using assms
proof (induction k finished todo rule: gauss_jordan.induct)
  case (1 k finished todo)
  show ?case
  proof (cases "todo = []")
    case True
    then show ?thesis by (simp add: gauss_jordan.simps[of k finished todo])
  next
    case False
    then have kn: "k < n" and kw: "k < w"
      using "1.prems"(3,4) by (cases todo; simp)+
    show ?thesis
    proof (cases "find (\<lambda>r. r ! k \<noteq> 0) todo")
      case None
      then have none: "\<forall>r \<in> set todo. r ! k = 0"
        by (auto simp: find_None_iff)
      define z where "z = map (\<lambda>j. if j < k then - (finished ! j ! k) else if j = k then 1 else 0) [0..<w]"
      have "\<forall>r \<in> set finished \<union> set todo. dot r z = 0"
        unfolding z_def by (rule no_pivot_kernel[OF "1.prems"(1,2) kw none])
      moreover have "\<forall>j. n \<le> j \<and> j < length z \<longrightarrow> z ! j = 0"
        using kn by (auto simp: z_def)
      ultimately have "kernel_in n (finished @ todo) z"
        by (simp add: kernel_in_def)
      moreover have "length z = w" by (simp add: z_def)
      ultimately have "z ! k = 0"
        using "1.prems"(5) kn by blast
      moreover have "z ! k = 1"
        using kw by (simp add: z_def)
      ultimately show ?thesis by simp
    next
      case (Some p)
      define q where "q = scale_row (1 / p ! k) p"
      from Some have p: "p \<in> set todo" "p ! k \<noteq> 0"
        by (rule find_pivot)+
      have len: "Suc (length (remove1 p todo)) = length todo"
        using p(1) length_pos_if_in_set[OF p(1)] by (simp add: length_remove1)
      let ?F = "map (eliminate k q) finished @ [q]" and ?T = "map (eliminate k q) (remove1 p todo)"
      have "gauss_jordan (Suc k) ?F ?T \<noteq> None"
      proof (rule "1.IH"[OF False Some q_def])
        show "reduced (Suc k) ?F ?T"
          by (rule step_reduced[OF "1.prems"(1,2) kw p q_def])
        show "\<forall>r \<in> set ?F \<union> set ?T. length r = w"
          by (rule step_rows[OF "1.prems"(2) p(1) q_def])
        show "Suc k + length ?T = n"
          using "1.prems"(3) len by simp
        show "n \<le> w" by fact
        show "\<forall>z. length z = w \<longrightarrow> kernel_in n (?F @ ?T) z \<longrightarrow> (\<forall>j<n. z ! j = 0)"
        proof (intro allI impI)
          fix z j assume z: "length z = w" "kernel_in n (?F @ ?T) z" and j: "j < n"
          from z(2) have "\<forall>r \<in> set ?F \<union> set ?T. dot r z = 0"
            by (simp add: kernel_in_def)
          then have "\<forall>r \<in> set finished \<union> set todo. dot r z = 0"
            using step_kernel[OF "1.prems"(2) p q_def, of z] by simp
          with z(2) have "kernel_in n (finished @ todo) z"
            by (simp add: kernel_in_def)
          with "1.prems"(5) z(1) j show "z ! j = 0" by blast
        qed
      qed
      then show ?thesis
        using False Some by (simp add: gauss_jordan.simps[of k finished todo] q_def Let_def)
    qed
  qed
qed

subsection \<open>Matrices: shapes and entries\<close>

lemma mat_length: "mat n m A \<Longrightarrow> length A = n"
  by (simp add: mat_def)

lemma mat_row: "mat n m A \<Longrightarrow> i < n \<Longrightarrow> length (A ! i) = m"
  by (simp add: mat_def list_all_length)

lemma mat_ncols: "mat n m A \<Longrightarrow> 0 < n \<Longrightarrow> ncols A = m"
  by (cases A) (simp_all add: mat_def ncols_def)

lemma matI: "length A = n \<Longrightarrow> (\<And>i. i < n \<Longrightarrow> length (A ! i) = m) \<Longrightarrow> mat n m A"
  by (simp add: mat_def list_all_length)

lemma mat_eqI:
  assumes "mat n m A" "mat n m B" "\<And>i j. i < n \<Longrightarrow> j < m \<Longrightarrow> A ! i ! j = B ! i ! j"
  shows "A = B"
proof (rule nth_equalityI)
  show "length A = length B"
    using assms(1,2) by (simp add: mat_length)
  fix i assume "i < length A"
  then have i: "i < n" using assms(1) by (simp add: mat_length)
  show "A ! i = B ! i"
    using assms i by (intro nth_equalityI) (simp_all add: mat_row)
qed

lemma length_col [simp]: "length (col A j) = length A"
  by (simp add: col_def)

lemma nth_col: "i < length A \<Longrightarrow> col A j ! i = A ! i ! j"
  by (simp add: col_def)

lemma dot_col:
  assumes "length r = length A"
  shows "dot r (col A j) = (\<Sum>l<length A. r ! l * A ! l ! j)"
  using dot_nth_sum[of r "col A j"] assms by (simp add: nth_col)

lemma mat_identity: "mat n n (identity n)"
  by (simp add: mat_def identity_def list_all_length)

lemma nth_identity: "i < n \<Longrightarrow> j < n \<Longrightarrow> identity n ! i ! j = (if i = j then 1 else 0)"
  by (simp add: identity_def)

lemma matmul_Inr:
  assumes "mat n k A" "mat k m B" "0 < k"
  shows "matmul A B = Inr (map (\<lambda>r. map (\<lambda>j. dot r (col B j)) [0..<m]) A)"
  using assms by (simp add: matmul_def mat_length mat_ncols)

lemma matmul_mat:
  assumes "mat n k A" "mat k m B" "0 < k" "matmul A B = Inr C"
  shows "mat n m C"
proof -
  have "C = map (\<lambda>r. map (\<lambda>j. dot r (col B j)) [0..<m]) A"
    using matmul_Inr[OF assms(1-3)] assms(4) by simp
  then show ?thesis
    using mat_length[OF assms(1)] by (simp add: mat_def list_all_length)
qed

lemma matmul_nth:
  assumes "mat n k A" "mat k m B" "0 < k" "matmul A B = Inr C" "i < n" "j < m"
  shows "C ! i ! j = (\<Sum>l<k. A ! i ! l * B ! l ! j)"
proof -
  have "C = map (\<lambda>r. map (\<lambda>j. dot r (col B j)) [0..<m]) A"
    using matmul_Inr[OF assms(1-3)] assms(4) by simp
  then have "C ! i ! j = dot (A ! i) (col B j)"
    using mat_length[OF assms(1)] assms(5,6) by simp
  also have "\<dots> = (\<Sum>l<length B. A ! i ! l * B ! l ! j)"
    using assms by (intro dot_col) (simp add: mat_row mat_length)
  finally show ?thesis
    using assms(2) by (simp add: mat_length)
qed

lemma matmul_eq_iff:
  assumes "mat n k A" "mat k m B" "0 < k" "mat n m C"
  shows "matmul A B = Inr C \<longleftrightarrow> (\<forall>i<n. \<forall>j<m. dot (A ! i) (col B j) = C ! i ! j)"
proof
  assume "matmul A B = Inr C"
  then have "C = map (\<lambda>r. map (\<lambda>j. dot r (col B j)) [0..<m]) A"
    using matmul_Inr[OF assms(1-3)] by simp
  then show "\<forall>i<n. \<forall>j<m. dot (A ! i) (col B j) = C ! i ! j"
    using mat_length[OF assms(1)] by simp
next
  assume eq: "\<forall>i<n. \<forall>j<m. dot (A ! i) (col B j) = C ! i ! j"
  obtain D where D: "matmul A B = Inr D"
    using assms by (simp add: matmul_Inr)
  have "D = C"
  proof (rule mat_eqI[OF matmul_mat[OF assms(1-3) D] assms(4)])
    fix i j assume ij: "i < n" "j < m"
    have "D = map (\<lambda>r. map (\<lambda>j. dot r (col B j)) [0..<m]) A"
      using matmul_Inr[OF assms(1-3)] D by simp
    then have "D ! i ! j = dot (A ! i) (col B j)"
      using mat_length[OF assms(1)] ij by simp
    then show "D ! i ! j = C ! i ! j"
      using eq ij by simp
  qed
  with D show "matmul A B = Inr C" by simp
qed

subsection \<open>What the solver returns\<close>

lemma augment_rows:
  assumes "mat n n A" "mat n m B"
  shows "length (map2 (@) A B) = n"
    and "\<And>i. i < n \<Longrightarrow> map2 (@) A B ! i = A ! i @ B ! i"
    and "\<forall>r \<in> set [] \<union> set (map2 (@) A B). length r = n + m"
proof -
  show len: "length (map2 (@) A B) = n"
    using assms by (simp add: mat_length)
  show nth: "map2 (@) A B ! i = A ! i @ B ! i" if "i < n" for i
    using that assms by (simp add: mat_length)
  show "\<forall>r \<in> set [] \<union> set (map2 (@) A B). length r = n + m"
    using assms len nth by (auto simp: in_set_conv_nth mat_row)
qed

lemma dot_neg_unit:
  assumes "j < m" "length b = m"
  shows "dot b (map (\<lambda>l. if l = j then - 1 else 0) [0..<m]) = - (b ! j)"
proof -
  have "dot b (map (\<lambda>l. if l = j then - 1 else 0) [0..<m])
          = (\<Sum>l<m. b ! l * (if l = j then - 1 else 0))"
    using dot_nth_sum[of b "map (\<lambda>l. if l = j then - 1 else 0) [0..<m]"] assms by simp
  also have "\<dots> = (\<Sum>l<m. if l = j then - (b ! l) else 0)"
    by (intro sum.cong) simp_all
  also have "\<dots> = - (b ! j)"
    using assms(1) by simp
  finally show ?thesis .
qed

lemma dot_row_candidate:
  assumes "length a = n" "length b = m" "mat n m Y" "j < m"
  shows "dot (a @ b) (col Y j @ map (\<lambda>l. if l = j then - 1 else 0) [0..<m])
           = dot a (col Y j) - b ! j"
  using assms by (simp add: dot_append mat_length dot_neg_unit)

lemma dot_unit_row:
  assumes "length a = n" "mat n m Y" "i < n" "\<forall>l<n. a ! l = (if i = l then 1 else 0)"
  shows "dot a (col Y j) = Y ! i ! j"
proof -
  have "dot a (col Y j) = (\<Sum>l<n. a ! l * Y ! l ! j)"
    using dot_col[of a Y j] assms(1,2) by (simp add: mat_length)
  also have "\<dots> = (\<Sum>l<n. if l = i then Y ! l ! j else 0)"
    using assms(4) by (intro sum.cong) auto
  also have "\<dots> = Y ! i ! j"
    using assms(3) by simp
  finally show ?thesis .
qed

lemma all_set_nth: "length M = n \<Longrightarrow> (\<forall>r \<in> set M. P r) \<longleftrightarrow> (\<forall>i<n. P (M ! i))"
  by (auto simp: all_set_conv_all_nth)

lemma gauss_jordan_solves:
  assumes A: "mat n n A" and B: "mat n m B"
    and gj: "gauss_jordan 0 [] (map2 (@) A B) = Some R"
  shows "mat n m (map (drop n) R)"
    and "mat n m Y \<Longrightarrow>
         (\<forall>i<n. \<forall>j<m. dot (A ! i) (col Y j) = B ! i ! j) \<longleftrightarrow> Y = map (drop n) R"
proof -
  note aug = augment_rows[OF A B]
  have red0: "reduced 0 [] (map2 (@) A B)"
    by (simp add: reduced_def)
  have "reduced n R [] \<and> (\<forall>r \<in> set R. length r = n + m)"
    using gauss_jordan_reduced[OF gj red0 aug(3)] by (metis aug(1) add_0 le_add1)
  then have red: "reduced n R []" and rowsR: "\<forall>r \<in> set R. length r = n + m"
    by blast+
  have lenR: "length R = n"
    and unit: "\<And>i l. i < n \<Longrightarrow> l < n \<Longrightarrow> R ! i ! l = (if i = l then 1 else 0)"
    using red by (auto simp: reduced_def)
  have lenRi: "length (R ! i) = n + m" if "i < n" for i
    using rowsR that lenR by simp
  show X: "mat n m (map (drop n) R)"
    by (rule matI) (simp_all add: lenR lenRi)
  assume Y: "mat n m Y"
  let ?z = "\<lambda>j. col Y j @ map (\<lambda>l. if l = j then - 1 else 0) [0..<m]"
  have kern: "(\<forall>r \<in> set R. dot r (?z j) = 0) \<longleftrightarrow> (\<forall>r \<in> set (map2 (@) A B). dot r (?z j) = 0)" for j
    using gauss_jordan_kernel[OF gj aug(3), of "?z j"] by simp
  have lhs: "(\<forall>r \<in> set (map2 (@) A B). dot r (?z j) = 0) \<longleftrightarrow> (\<forall>i<n. dot (A ! i) (col Y j) = B ! i ! j)"
    if j: "j < m" for j
  proof -
    define M where "M = map2 (@) A B"
    have "dot (M ! i) (?z j) = dot (A ! i) (col Y j) - B ! i ! j" if "i < n" for i
      unfolding M_def aug(2)[OF that]
      using that j by (intro dot_row_candidate[OF mat_row[OF A] mat_row[OF B] Y])
    then have "(\<forall>i<n. dot (M ! i) (?z j) = 0) \<longleftrightarrow> (\<forall>i<n. dot (A ! i) (col Y j) = B ! i ! j)"
      by simp
    moreover have "(\<forall>r \<in> set M. dot r (?z j) = 0) \<longleftrightarrow> (\<forall>i<n. dot (M ! i) (?z j) = 0)"
      by (rule all_set_nth) (simp only: M_def aug(1))
    ultimately show ?thesis
      unfolding M_def by blast
  qed
  have rhs: "(\<forall>r \<in> set R. dot r (?z j) = 0) \<longleftrightarrow> (\<forall>i<n. Y ! i ! j = drop n (R ! i) ! j)"
    if j: "j < m" for j
  proof -
    have "dot (R ! i) (?z j) = Y ! i ! j - drop n (R ! i) ! j" if i: "i < n" for i
    proof -
      have "dot (take n (R ! i) @ drop n (R ! i)) (?z j)
              = dot (take n (R ! i)) (col Y j) - drop n (R ! i) ! j"
        using lenRi[OF i] j by (intro dot_row_candidate[OF _ _ Y]) simp_all
      moreover have "dot (take n (R ! i)) (col Y j) = Y ! i ! j"
        using lenRi[OF i] i unit by (intro dot_unit_row[OF _ Y]) simp_all
      ultimately show ?thesis by simp
    qed
    then have "(\<forall>i<n. dot (R ! i) (?z j) = 0) \<longleftrightarrow> (\<forall>i<n. Y ! i ! j = drop n (R ! i) ! j)"
      by simp
    then show ?thesis
      using all_set_nth[OF lenR, of "\<lambda>r. dot r (?z j) = 0"] by blast
  qed
  show "(\<forall>i<n. \<forall>j<m. dot (A ! i) (col Y j) = B ! i ! j) \<longleftrightarrow> Y = map (drop n) R"
  proof
    assume sol: "\<forall>i<n. \<forall>j<m. dot (A ! i) (col Y j) = B ! i ! j"
    show "Y = map (drop n) R"
    proof (rule mat_eqI[OF Y X])
      fix i j assume ij: "i < n" "j < m"
      from sol ij have "\<forall>i<n. dot (A ! i) (col Y j) = B ! i ! j" by simp
      then have "\<forall>i<n. Y ! i ! j = drop n (R ! i) ! j"
        using lhs[OF ij(2)] rhs[OF ij(2)] kern[of j] by simp
      then show "Y ! i ! j = map (drop n) R ! i ! j"
        using ij lenR by simp
    qed
  next
    assume eq: "Y = map (drop n) R"
    show "\<forall>i<n. \<forall>j<m. dot (A ! i) (col Y j) = B ! i ! j"
    proof (intro allI impI)
      fix i j assume ij: "i < n" "j < m"
      have "\<forall>i<n. Y ! i ! j = drop n (R ! i) ! j"
        using eq lenR by simp
      then have "\<forall>i<n. dot (A ! i) (col Y j) = B ! i ! j"
        using lhs[OF ij(2)] rhs[OF ij(2)] kern[of j] by simp
      with ij show "dot (A ! i) (col Y j) = B ! i ! j" by simp
    qed
  qed
qed

subsection \<open>Invertible matrices\<close>

lemma left_inverse_kernel:
  assumes A: "mat n n A" and Q: "mat n n Q" and n: "0 < n"
    and QA: "matmul Q A = Inr (identity n)"
    and v: "length v = n" "\<forall>i<n. dot (A ! i) v = 0"
    and j: "j < n"
  shows "v ! j = 0"
proof -
  have row: "(\<Sum>l<n. A ! i ! l * v ! l) = 0" if "i < n" for i
    using dot_nth_sum[of "A ! i" v] v that mat_row[OF A that] by simp
  have "v ! j = (\<Sum>l<n. (if l = j then v ! l else 0))"
    using j by simp
  also have "\<dots> = (\<Sum>l<n. identity n ! j ! l * v ! l)"
    using j by (intro sum.cong) (auto simp: nth_identity)
  also have "\<dots> = (\<Sum>l<n. (\<Sum>i<n. Q ! j ! i * A ! i ! l) * v ! l)"
    using j by (intro sum.cong) (simp_all add: matmul_nth[OF Q A n QA])
  also have "\<dots> = (\<Sum>l<n. \<Sum>i<n. Q ! j ! i * (A ! i ! l * v ! l))"
    by (simp add: sum_distrib_right mult.assoc)
  also have "\<dots> = (\<Sum>i<n. \<Sum>l<n. Q ! j ! i * (A ! i ! l * v ! l))"
    by (rule sum.swap)
  also have "\<dots> = (\<Sum>i<n. Q ! j ! i * (\<Sum>l<n. A ! i ! l * v ! l))"
    by (simp add: sum_distrib_left)
  also have "\<dots> = 0"
    by (simp add: row)
  finally show ?thesis .
qed

lemma dot_zero_tail:
  assumes "length b = length u" "\<forall>l<length u. u ! l = 0"
  shows "dot b u = 0"
  using dot_nth_sum[OF assms(1)] assms by simp

lemma solver_succeeds:
  assumes A: "mat n n A" and B: "mat n m B" and Q: "mat n n Q" and n: "0 < n"
    and QA: "matmul Q A = Inr (identity n)"
  shows "gauss_jordan 0 [] (map2 (@) A B) \<noteq> None"
proof (rule gauss_jordan_succeeds[where n = n and w = "n + m"])
  note aug = augment_rows[OF A B]
  show "reduced 0 [] (map2 (@) A B)"
    by (simp add: reduced_def)
  show "\<forall>r \<in> set [] \<union> set (map2 (@) A B). length r = n + m"
    by (rule aug(3))
  show "0 + length (map2 (@) A B) = n"
    using aug(1) by linarith
  show "n \<le> n + m" by simp
  show "\<forall>z. length z = n + m \<longrightarrow> kernel_in n ([] @ map2 (@) A B) z \<longrightarrow> (\<forall>j<n. z ! j = 0)"
  proof (intro allI impI)
    fix z j assume z: "length z = n + m" "kernel_in n ([] @ map2 (@) A B) z" and j: "j < n"
    define M where "M = map2 (@) A B"
    from z(2) have ann: "\<forall>r \<in> set M. dot r z = 0"
      and tail: "\<forall>l. n \<le> l \<and> l < length z \<longrightarrow> z ! l = 0"
      by (simp_all add: kernel_in_def M_def)
    have lenM: "length M = n"
      unfolding M_def by (rule aug(1))
    have "dot (A ! i) (take n z) = 0" if i: "i < n" for i
    proof -
      have "dot (M ! i) z = 0"
        using ann i lenM by simp
      then have "dot (A ! i @ B ! i) (take n z @ drop n z) = 0"
        unfolding M_def aug(2)[OF i] by simp
      moreover have "dot (A ! i @ B ! i) (take n z @ drop n z)
                       = dot (A ! i) (take n z) + dot (B ! i) (drop n z)"
        using z(1) mat_row[OF A i] by (intro dot_append) simp
      moreover have "dot (B ! i) (drop n z) = 0"
        using z(1) tail mat_row[OF B i] by (intro dot_zero_tail) simp_all
      ultimately show ?thesis by simp
    qed
    then have "take n z ! j = 0"
      using z(1) by (intro left_inverse_kernel[OF A Q n QA _ _ j]) simp_all
    then show "z ! j = 0"
      using j by simp
  qed
qed

lemma right_inverse_solution:
  assumes A: "mat n n A" and B: "mat n m B" and Q: "mat n n Q" and n: "0 < n"
    and AQ: "matmul A Q = Inr (identity n)"
    and Y: "matmul Q B = Inr Y"
    and ij: "i < n" "j < m"
  shows "dot (A ! i) (col Y j) = B ! i ! j"
proof -
  have matY: "mat n m Y"
    by (rule matmul_mat[OF Q B n Y])
  have "dot (A ! i) (col Y j) = (\<Sum>l<n. A ! i ! l * Y ! l ! j)"
    using dot_col[of "A ! i" Y j] mat_row[OF A ij(1)] mat_length[OF matY] by simp
  also have "\<dots> = (\<Sum>l<n. A ! i ! l * (\<Sum>t<n. Q ! l ! t * B ! t ! j))"
    using ij by (intro sum.cong) (simp_all add: matmul_nth[OF Q B n Y])
  also have "\<dots> = (\<Sum>l<n. \<Sum>t<n. A ! i ! l * Q ! l ! t * B ! t ! j)"
    by (simp add: sum_distrib_left mult.assoc)
  also have "\<dots> = (\<Sum>t<n. \<Sum>l<n. A ! i ! l * Q ! l ! t * B ! t ! j)"
    by (rule sum.swap)
  also have "\<dots> = (\<Sum>t<n. (\<Sum>l<n. A ! i ! l * Q ! l ! t) * B ! t ! j)"
    by (simp add: sum_distrib_right)
  also have "\<dots> = (\<Sum>t<n. identity n ! i ! t * B ! t ! j)"
    using ij by (intro sum.cong) (simp_all add: matmul_nth[OF A Q n AQ])
  also have "\<dots> = (\<Sum>t<n. if t = i then B ! t ! j else 0)"
    using ij by (intro sum.cong) (auto simp: nth_identity)
  also have "\<dots> = B ! i ! j"
    using ij by simp
  finally show ?thesis .
qed

text \<open>
  The contract of \<open>linalg_solve\<close>, proved of the elimination: on a matrix with a two-sided
  inverse it returns the one solution of the system, which is the inverse times the
  right-hand side.
\<close>

lemma linalg_solve_invertible:
  assumes A: "mat n n A" and B: "mat n m B" and Q: "mat n n Q" and n: "0 < n"
    and AQ: "matmul A Q = Inr (identity n)"
    and QA: "matmul Q A = Inr (identity n)"
  shows "\<exists>X. linalg_solve A B = Inr X \<and> mat n m X
             \<and> matmul A X = Inr B \<and> matmul Q B = Inr X
             \<and> (\<forall>Y. mat n m Y \<and> matmul A Y = Inr B \<longrightarrow> Y = X)"
proof -
  obtain R where gj: "gauss_jordan 0 [] (map2 (@) A B) = Some R"
    using solver_succeeds[OF A B Q n QA] by auto
  define X where "X = map (drop n) R"
  have matX: "mat n m X"
    unfolding X_def by (rule gauss_jordan_solves(1)[OF A B gj])
  have char: "(\<forall>i<n. \<forall>j<m. dot (A ! i) (col Y j) = B ! i ! j) \<longleftrightarrow> Y = X" if "mat n m Y" for Y
    unfolding X_def by (rule gauss_jordan_solves(2)[OF A B gj that])
  have iff: "matmul A Y = Inr B \<longleftrightarrow> Y = X" if "mat n m Y" for Y
    using matmul_eq_iff[OF A that n B] char[OF that] by simp
  have solve: "linalg_solve A B = Inr X"
    using A B n gj by (simp add: linalg_solve_def mat_length mat_ncols X_def)
  obtain Y where Y: "matmul Q B = Inr Y"
    using matmul_Inr[OF Q B n] by simp
  have matY: "mat n m Y"
    by (rule matmul_mat[OF Q B n Y])
  have "\<forall>i<n. \<forall>j<m. dot (A ! i) (col Y j) = B ! i ! j"
    using right_inverse_solution[OF A B Q n AQ Y] by simp
  then have "Y = X"
    using char[OF matY] by simp
  with Y solve matX iff show ?thesis
    by auto
qed

subsection \<open>The known transform in the two coordinate conventions\<close>

lemma upt_4: "[0..<4] = [0, 1, 2, 3]"
  by (simp add: upt_rec)

lemma mat_N: "mat 4 4 N"
  by (simp add: mat_def N_def)

lemma N_right_inverse:
  "matmul N [[0, 0, 63 / 2, 0], [0, 63 / 2, 0, 0], [63 / 2, 0, 0, 0], [0, 0, 0, 1]] = Inr (identity 4)"
  by (simp add: matmul_def mat_def N_def S_def ncols_def col_def dot_def identity_def upt_4)

lemma N_left_inverse:
  "matmul [[0, 0, 63 / 2, 0], [0, 63 / 2, 0, 0], [63 / 2, 0, 0, 0], [0, 0, 0, 1]] N = Inr (identity 4)"
  by (simp add: matmul_def mat_def N_def S_def ncols_def col_def dot_def identity_def upt_4)

lemma linalg_inv_N:
  "linalg_inv N = Inr [[0, 0, 63 / 2, 0], [0, 63 / 2, 0, 0], [63 / 2, 0, 0, 0], [0, 0, 0, 1]]"
proof -
  let ?Q = "[[0, 0, 63 / 2, 0], [0, 63 / 2, 0, 0], [63 / 2, 0, 0, 0], [0, 0, 0, 1 :: real]]"
  have Q: "mat 4 4 ?Q"
    by (simp add: mat_def)
  obtain X where X: "linalg_solve N (identity 4) = Inr X" "matmul ?Q (identity 4) = Inr X"
    using linalg_solve_invertible[OF mat_N mat_identity Q _ N_right_inverse N_left_inverse]
    by auto
  have "matmul ?Q (identity 4) = Inr ?Q"
    by (simp add: matmul_def mat_def ncols_def col_def dot_def identity_def upt_4)
  with X have "linalg_solve N (identity 4) = Inr ?Q"
    by simp
  moreover have "length N = 4"
    by (simp add: N_def)
  ultimately show ?thesis
    by (simp add: linalg_inv_def)
qed

lemma monai_coords_solution:
  assumes phi1: "recorded_affine (fixed_transforms d) = Inr phi1"
    and phi2: "recorded_affine (moving_transforms d) = Inr phi2"
    and shapes: "mat 4 4 phi1" "mat 4 4 phi2" "mat 4 4 Q"
    and inv: "matmul phi2 Q = Inr (identity 4)" "matmul Q phi2 = Inr (identity 4)"
  shows "\<exists>X. get_perfect_transform_monai_coords d = Inr X \<and> mat 4 4 X
             \<and> matmul phi2 X = Inr phi1 \<and> matmul Q phi1 = Inr X
             \<and> (\<forall>Y. mat 4 4 Y \<and> matmul phi2 Y = Inr phi1 \<longrightarrow> Y = X)"
  using linalg_solve_invertible[OF shapes(2) shapes(1) shapes(3) _ inv]
  by (simp add: get_perfect_transform_monai_coords_def phi1 phi2)

lemma torch_coords_conjugate:
  assumes theta: "get_perfect_transform_monai_coords d = Inr theta" and shape: "mat 4 4 theta"
  shows "\<exists>Ninv T R. linalg_inv N = Inr Ninv
           \<and> matmul N Ninv = Inr (identity 4) \<and> matmul Ninv N = Inr (identity 4)
           \<and> matmul theta Ninv = Inr T \<and> matmul N T = Inr R \<and> mat 4 4 R
           \<and> get_perfect_transform_torch_coords d = Inr R"
proof -
  let ?Q = "[[0, 0, 63 / 2, 0], [0, 63 / 2, 0, 0], [63 / 2, 0, 0, 0], [0, 0, 0, 1 :: real]]"
  have Q: "mat 4 4 ?Q"
    by (simp add: mat_def)
  obtain T where T: "matmul theta ?Q = Inr T"
    using matmul_Inr[OF shape Q] by simp
  have matT: "mat 4 4 T"
    by (rule matmul_mat[OF shape Q _ T]) simp
  obtain R where R: "matmul N T = Inr R"
    using matmul_Inr[OF mat_N matT] by simp
  have matR: "mat 4 4 R"
    by (rule matmul_mat[OF mat_N matT _ R]) simp
  have "get_perfect_transform_torch_coords d = Inr R"
    by (simp add: get_perfect_transform_torch_coords_def theta linalg_inv_N T R)
  with linalg_inv_N N_right_inverse N_left_inverse T R matR show ?thesis
    by blast
qed

lemma N_action:
  "map (\<lambda>r. dot r [x, y, z, 1]) N
     = [2 / real (S - 1) * z, 2 / real (S - 1) * y, 2 / real (S - 1) * x, 1]"
  by (simp add: N_def dot_def)

lemma N_rescales: "\<bar>2 / real (S - 1) * x\<bar> \<le> 1 \<longleftrightarrow> \<bar>x\<bar> \<le> real (S - 1) / 2"
  by (simp add: S_def abs_le_iff) argo

lemma example_recorded:
  "recorded_affine (fixed_transforms example_sample) = Inr example_phi1"
  "recorded_affine (moving_transforms example_sample) = Inr example_phi2"
  by (simp_all add: recorded_affine_def example_sample_def)

lemma example_inverse:
  "mat 4 4 example_phi1" "mat 4 4 example_phi2"
  "mat 4 4 [[0, 1, 0, 0], [- 1, 0, 0, 0], [0, 0, 1, 0], [0, 0, 0, 1]]"
  "matmul example_phi2 [[0, 1, 0, 0], [- 1, 0, 0, 0], [0, 0, 1, 0], [0, 0, 0, 1]] = Inr (identity 4)"
  "matmul [[0, 1, 0, 0], [- 1, 0, 0, 0], [0, 0, 1, 0], [0, 0, 0, 1]] example_phi2 = Inr (identity 4)"
  "matmul [[0, 1, 0, 0], [- 1, 0, 0, 0], [0, 0, 1, 0], [0, 0, 0, 1]] example_phi1
     = Inr [[0, 1, 0, 0], [- 1, 0, 0, - 2], [0, 0, 1, 0], [0, 0, 0, 1]]"
  by (simp_all add: matmul_def mat_def example_phi1_def example_phi2_def ncols_def col_def
      dot_def identity_def upt_4)

lemma example_monai_coords:
  "get_perfect_transform_monai_coords example_sample
     = Inr [[0, 1, 0, 0], [- 1, 0, 0, - 2], [0, 0, 1, 0], [0, 0, 0, 1]]"
  using monai_coords_solution[OF example_recorded example_inverse(1-5)] example_inverse(6)
  by auto

text \<open>
  C3. When the trace of a sample records the affines \<open>phi1\<close> (fixed image) and \<open>phi2\<close>
  (moving image), both 4 by 4, and \<open>phi2\<close> has a two-sided inverse \<open>Q\<close>, the known transform
  is computed without error and is \<open>Q * phi1\<close>, the one matrix \<open>X\<close> with \<open>phi2 * X = phi1\<close>.
\<close>

theorem perfect_transform_is_solution:
  assumes "recorded_affine (fixed_transforms d) = Inr phi1"
    and "recorded_affine (moving_transforms d) = Inr phi2"
    and "mat 4 4 phi1" and "mat 4 4 phi2" and "mat 4 4 Q"
    and "matmul phi2 Q = Inr (identity 4)" and "matmul Q phi2 = Inr (identity 4)"
  shows "\<exists>X. get_perfect_transform_monai_coords d = Inr X \<and> mat 4 4 X
             \<and> matmul Q phi1 = Inr X
             \<and> matmul phi2 X = Inr phi1
             \<and> (\<forall>Y. mat 4 4 Y \<and> matmul phi2 Y = Inr phi1 \<longrightarrow> Y = X)"
  using monai_coords_solution[OF assms] by blast

theorem perfect_transform_is_solution_witness:
  "get_perfect_transform_monai_coords example_sample
     = Inr [[0, 1, 0, 0], [- 1, 0, 0, - 2], [0, 0, 1, 0], [0, 0, 0, 1]]
   \<and> matmul example_phi2 [[0, 1, 0, 0], [- 1, 0, 0, - 2], [0, 0, 1, 0], [0, 0, 0, 1]]
       = Inr example_phi1"
  using perfect_transform_is_solution[OF example_recorded example_inverse(1-5)] example_inverse(6)
  by auto

text \<open>
  C1. For every 4 by 4 transform \<open>theta\<close> in the augmentation framework's coordinates, the
  conversion returns \<open>N * theta * N\<^sup>-\<^sup>1\<close>: the inverse computed for the constant \<open>N\<close> is its
  two-sided inverse, \<open>N\<close> sends the point \<open>(x, y, z)\<close> to \<open>2/(S-1)\<close> times \<open>(z, y, x)\<close>, so
  it reverses the axes and takes \<open>[-(S-1)/2, (S-1)/2]\<close> onto \<open>[-1, 1]\<close>, and two samples
  with the same \<open>theta\<close> get the same result.
\<close>

theorem torch_coords_is_conjugation:
  assumes "get_perfect_transform_monai_coords d = Inr theta" and "mat 4 4 theta"
  shows "(\<exists>Ninv T R. linalg_inv N = Inr Ninv
            \<and> matmul N Ninv = Inr (identity 4) \<and> matmul Ninv N = Inr (identity 4)
            \<and> matmul theta Ninv = Inr T \<and> matmul N T = Inr R \<and> mat 4 4 R
            \<and> get_perfect_transform_torch_coords d = Inr R)
         \<and> (\<forall>x y z. map (\<lambda>r. dot r [x, y, z, 1]) N
               = [2 / real (S - 1) * z, 2 / real (S - 1) * y, 2 / real (S - 1) * x, 1])
         \<and> (\<forall>x. \<bar>2 / real (S - 1) * x\<bar> \<le> 1 \<longleftrightarrow> \<bar>x\<bar> \<le> real (S - 1) / 2)
         \<and> (\<forall>d'. get_perfect_transform_monai_coords d' = Inr theta \<longrightarrow>
               get_perfect_transform_torch_coords d' = get_perfect_transform_torch_coords d)"
proof (intro conjI allI impI)
  show "\<exists>Ninv T R. linalg_inv N = Inr Ninv
            \<and> matmul N Ninv = Inr (identity 4) \<and> matmul Ninv N = Inr (identity 4)
            \<and> matmul theta Ninv = Inr T \<and> matmul N T = Inr R \<and> mat 4 4 R
            \<and> get_perfect_transform_torch_coords d = Inr R"
    using assms by (rule torch_coords_conjugate)
  show "map (\<lambda>r. dot r [x, y, z, 1]) N
          = [2 / real (S - 1) * z, 2 / real (S - 1) * y, 2 / real (S - 1) * x, 1]" for x y z
    by (rule N_action)
  show "\<bar>2 / real (S - 1) * x\<bar> \<le> 1 \<longleftrightarrow> \<bar>x\<bar> \<le> real (S - 1) / 2" for x
    by (rule N_rescales)
  show "get_perfect_transform_torch_coords d' = get_perfect_transform_torch_coords d"
    if "get_perfect_transform_monai_coords d' = Inr theta" for d'
    using that assms(1) by (simp add: get_perfect_transform_torch_coords_def)
qed

theorem torch_coords_is_conjugation_witness:
  "get_perfect_transform_monai_coords example_sample
     = Inr [[0, 1, 0, 0], [- 1, 0, 0, - 2], [0, 0, 1, 0], [0, 0, 0, 1]]
   \<and> get_perfect_transform_torch_coords example_sample
     = Inr [[1, 0, 0, 0], [0, 0, - 1, - 4 / 63], [0, 1, 0, 0], [0, 0, 0, 1]]"
proof -
  let ?theta = "[[0, 1, 0, 0], [- 1, 0, 0, - 2], [0, 0, 1, 0], [0, 0, 0, 1 :: real]]"
  let ?Q = "[[0, 0, 63 / 2, 0], [0, 63 / 2, 0, 0], [63 / 2, 0, 0, 0], [0, 0, 0, 1 :: real]]"
  have shape: "mat 4 4 ?theta"
    by (simp add: mat_def)
  from torch_coords_is_conjugation[OF example_monai_coords shape]
  obtain Ninv T R where *: "linalg_inv N = Inr Ninv" "matmul ?theta Ninv = Inr T"
    "matmul N T = Inr R" "get_perfect_transform_torch_coords example_sample = Inr R"
    by blast
  from *(1) have Ninv: "Ninv = ?Q"
    by (simp add: linalg_inv_N)
  have "matmul ?theta ?Q = Inr [[0, 63 / 2, 0, 0], [0, 0, - 63 / 2, - 2], [63 / 2, 0, 0, 0], [0, 0, 0, 1]]"
    by (simp add: matmul_def mat_def ncols_def col_def dot_def upt_4)
  with *(2) Ninv have T: "T = [[0, 63 / 2, 0, 0], [0, 0, - 63 / 2, - 2], [63 / 2, 0, 0, 0], [0, 0, 0, 1]]"
    by simp
  have "matmul N [[0, 63 / 2, 0, 0], [0, 0, - 63 / 2, - 2], [63 / 2, 0, 0, 0], [0, 0, 0, 1]]
          = Inr [[1, 0, 0, 0], [0, 0, - 1, - 4 / 63], [0, 1, 0, 0], [0, 0, 0, 1]]"
    by (simp add: matmul_def mat_def N_def S_def ncols_def col_def dot_def upt_4)
  with *(3) T have "R = [[1, 0, 0, 0], [0, 0, - 1, - 4 / 63], [0, 1, 0, 0], [0, 0, 0, 1]]"
    by simp
  with *(4) example_monai_coords show ?thesis
    by simp
qed

subsection \<open>Storage blocks\<close>

lemma rows_of_Nil [simp]: "rows_of n [] = []"
  by (simp add: rows_of_def)

lemma rows_of_append:
  assumes "length b = n" "0 < n"
  shows "rows_of n (b @ xs) = b # rows_of n xs"
proof -
  have "(n + length xs) div n = Suc (length xs div n)"
    using assms(2) by simp
  then have "rows_of n (b @ xs)
               = map (\<lambda>k. take n (drop (k * n) (b @ xs))) [0..<Suc (length xs div n)]"
    using assms(1) by (simp add: rows_of_def)
  also have "\<dots> = take n (b @ xs) # map (\<lambda>k. take n (drop (Suc k * n) (b @ xs))) [0..<length xs div n]"
    by (simp only: upt_conv_Cons[OF zero_less_Suc] list.map map_Suc_upt[symmetric] map_map o_def)
       simp
  also have "\<dots> = b # rows_of n xs"
    using assms(1) by (simp add: rows_of_def)
  finally show ?thesis .
qed

lemma rows_of_concat:
  assumes "\<forall>b \<in> set bs. length b = n" "0 < n"
  shows "rows_of n (concat bs) = bs"
  using assms by (induction bs) (simp_all add: rows_of_append)

lemma collect_length: "collect ms = Inr vs \<Longrightarrow> length vs = length ms"
proof (induction ms arbitrary: vs)
  case Nil
  then show ?case by simp
next
  case (Cons m ms)
  then show ?case by (auto simp: and_then_eq_Inr)
qed

subsection \<open>The network right after construction\<close>

lemma dot_zero_left: "dot (map (\<lambda>_. 0) w) x = 0"
proof (induction w arbitrary: x)
  case Nil
  then show ?case by simp
next
  case (Cons a w)
  then show ?case by (cases x) simp_all
qed

lemma map2_snd: "length ws = length bs \<Longrightarrow> map2 (\<lambda>w b. b) ws bs = bs"
  by (induction ws bs rule: list_induct2) simp_all

lemma linear_row_zero_weight:
  "length W = length b \<Longrightarrow> linear_row (zero_inplace W) b x = b"
proof -
  assume len: "length W = length b"
  have "linear_row (zero_inplace W) b x = map2 (\<lambda>w bi. bi) W b"
    by (simp add: linear_row_def zero_inplace_def zip_map1 dot_zero_left case_prod_unfold)
  then show ?thesis
    using len by (simp add: map2_snd)
qed

lemma AffineNet_init_value:
  "AffineNet_init lv w0 b0 =
     Inr \<lparr> localization_values = lv,
           fc_weight = zero_inplace (map (\<lambda>i. map (w0 i) [0..<loc_C3 * S0 ^ 3]) [0..<4 * 3]),
           fc_bias = [1, 0, 0, 0, 0, 1, 0, 0, 0, 0, 1, 0],
           training = True \<rparr>"
  by (simp add: AffineNet_init_def copy_inplace_def Let_def)

lemma rows_of_length: "length (rows_of n xs) = length xs div n"
  by (simp add: rows_of_def)

lemma map_const_replicate: "map (\<lambda>_. c) xs = replicate (length xs) c"
  by (induction xs) simp_all

lemma initial_theta:
  assumes init: "AffineNet_init lv w0 b0 = Inr net"
    and shape: "shape x = [B, 2, S, S, S]" and pos: "0 < B"
    and wf: "length (lv x) = B * (loc_C3 * S0 ^ 3)"
  shows "\<exists>warped. forward P net x =
           Inr (\<lparr>shape = [B, 3, 4],
                 data = concat (replicate B [1, 0, 0, 0, 0, 1, 0, 0, 0, 0, 1, 0])\<rparr>, warped)"
proof -
  let ?W = "map (\<lambda>i. map (w0 i) [0..<loc_C3 * S0 ^ 3]) [0..<4 * 3]"
  let ?b = "[1, 0, 0, 0, 0, 1, 0, 0, 0, 0, 1, 0 :: real]"
  have net: "localization_values net = lv" "fc_weight net = zero_inplace ?W" "fc_bias net = ?b"
    using init by (auto simp: AffineNet_init_value)
  have row: "linear_row (fc_weight net) (fc_bias net) = (\<lambda>_. ?b)"
    unfolding net by (rule ext, rule linear_row_zero_weight) simp
  have "length (rows_of (loc_C3 * S0 ^ 3) (lv x)) = B"
    by (simp add: rows_of_length wf S0_value loc_C3_def)
  then have "concat (map (linear_row (fc_weight net) (fc_bias net))
               (rows_of (loc_C3 * S0 ^ 3) (localization_values net x)))
             = concat (replicate B ?b)"
    by (simp add: row net(1) map_const_replicate)
  then show ?thesis
    by (simp add: forward_on_batch[OF shape pos] Let_def)
qed

lemma forward_stages:
  assumes "forward P net x = Inr (theta, warped)"
  shows "(\<exists>xs flat t12. apply_localization net x = Inr xs
            \<and> view [- 1, int (loc_C3 * S0 ^ 3)] xs = Inr flat
            \<and> apply_fc_loc net flat = Inr t12
            \<and> view [- 1, 3, 4] t12 = Inr theta)
         \<and> (\<exists>grid mv. affine_grid P theta (shape x) = Inr grid
            \<and> select_channels [1] x = Inr mv
            \<and> grid_sample P mv grid = Inr warped)"
  using assms
  by (auto simp: forward_def and_then_eq_Inr split: if_splits)

lemma affine_grid_any_values:
  assumes "affine_grid P theta sz = Inr g"
  shows "\<exists>g'. affine_grid P' theta sz = Inr g' \<and> shape g' = shape g"
  using assms
  by (auto simp: affine_grid_def split: list.splits if_splits)

lemma grid_sample_any_values:
  assumes "grid_sample P mv g = Inr w" "shape g' = shape g"
  shows "\<exists>w'. grid_sample P' mv g' = Inr w'"
  using assms
  by (auto simp: grid_sample_def split: list.splits if_splits)

lemma forward_theta_any_sampling:
  assumes "forward P net x = Inr (theta, warped)"
  shows "\<exists>warped'. forward P' net x = Inr (theta, warped')"
proof -
  from forward_stages[OF assms] obtain xs flat t12 grid mv where
    st: "apply_localization net x = Inr xs" "view [- 1, int (loc_C3 * S0 ^ 3)] xs = Inr flat"
      "apply_fc_loc net flat = Inr t12" "view [- 1, 3, 4] t12 = Inr theta"
      "affine_grid P theta (shape x) = Inr grid" "select_channels [1] x = Inr mv"
      "grid_sample P mv grid = Inr warped"
    by blast
  have ok: "localization_ok (shape xs)"
    using assms st(1) by (auto simp: forward_def split: if_splits)
  obtain g' where g': "affine_grid P' theta (shape x) = Inr g'" "shape g' = shape grid"
    using affine_grid_any_values[OF st(5)] by blast
  obtain w' where w': "grid_sample P' mv g' = Inr w'"
    using grid_sample_any_values[OF st(7) g'(2)] by blast
  have "forward P' net x = Inr (theta, w')"
    unfolding forward_def using ok st(1-4,6) g'(1) w'
    by (simp del: of_nat_mult of_nat_power)
  then show ?thesis ..
qed

text \<open>
  C8. The constructor always returns a network whose regressor has zero weights and the
  flattened 3-by-4 identity as bias; on every non-empty input of the notebook's shape for
  which the localization stack returns a well-formed tensor, that network predicts the
  identity transform for each element of the batch, whatever the input holds.
\<close>

theorem initial_prediction_is_identity:
  "\<exists>net. AffineNet_init lv w0 b0 = Inr net
     \<and> list_all (list_all (\<lambda>w. w = 0)) (fc_weight net)
     \<and> fc_bias net = [1, 0, 0, 0, 0, 1, 0, 0, 0, 0, 1, 0]
     \<and> (\<forall>P x B. shape x = [B, 2, S, S, S] \<and> 0 < B
            \<and> length (lv x) = B * (loc_C3 * S0 ^ 3) \<longrightarrow>
          (\<exists>warped. forward P net x =
             Inr (\<lparr>shape = [B, 3, 4],
                   data = concat (replicate B [1, 0, 0, 0, 0, 1, 0, 0, 0, 0, 1, 0])\<rparr>, warped)))"
proof -
  obtain net where net: "AffineNet_init lv w0 b0 = Inr net"
    by (simp add: AffineNet_init_value)
  have "list_all (list_all (\<lambda>w. w = 0)) (fc_weight net)"
    using net by (auto simp: AffineNet_init_value zero_inplace_def list_all_iff)
  moreover have "fc_bias net = [1, 0, 0, 0, 0, 1, 0, 0, 0, 0, 1, 0]"
    using net by (auto simp: AffineNet_init_value)
  ultimately show ?thesis
    using net initial_theta[OF net] by blast
qed

theorem initial_prediction_is_identity_witness:
  "\<exists>net warped.
     AffineNet_init (\<lambda>x. replicate (loc_C3 * S0 ^ 3) (1 / 2)) (\<lambda>i j. 1) (\<lambda>i. 0) = Inr net
     \<and> length (replicate (loc_C3 * S0 ^ 3) (1 / 2 :: real)) = 1 * (loc_C3 * S0 ^ 3)
     \<and> forward \<lparr>grid_values = (\<lambda>t sz. []), sample_values = (\<lambda>t g. [])\<rparr> net
         \<lparr>shape = [1, 2, S, S, S], data = replicate (2 * S * S * S) 1\<rparr>
       = Inr (\<lparr>shape = [1, 3, 4], data = [1, 0, 0, 0, 0, 1, 0, 0, 0, 0, 1, 0]\<rparr>, warped)"
proof -
  let ?lv = "\<lambda>x :: tensor. replicate (loc_C3 * S0 ^ 3) (1 / 2 :: real)"
  let ?x = "\<lparr>shape = [1, 2, S, S, S], data = replicate (2 * S * S * S) 1\<rparr>"
  from initial_prediction_is_identity[of ?lv "\<lambda>i j. 1" "\<lambda>i. 0"]
  obtain net where net: "AffineNet_init ?lv (\<lambda>i j. 1) (\<lambda>i. 0) = Inr net"
    and all: "\<And>P x B. shape x = [B, 2, S, S, S] \<and> 0 < B
                  \<and> length (?lv x) = B * (loc_C3 * S0 ^ 3) \<Longrightarrow>
          (\<exists>warped. forward P net x =
             Inr (\<lparr>shape = [B, 3, 4],
                   data = concat (replicate B [1, 0, 0, 0, 0, 1, 0, 0, 0, 0, 1, 0])\<rparr>, warped))"
    by blast
  have "shape ?x = [1, 2, S, S, S] \<and> 0 < (1 :: nat) \<and> length (?lv ?x) = 1 * (loc_C3 * S0 ^ 3)"
    by simp
  from all[OF this, of "\<lparr>grid_values = (\<lambda>t sz. []), sample_values = (\<lambda>t g. [])\<rparr>"] net
  show ?thesis
    by auto
qed

subsection \<open>Channels of a batch\<close>

lemma stack_same_shape:
  assumes "ts \<noteq> []" "\<forall>u \<in> set ts. shape u = sh"
  shows "stack ts = Inr \<lparr>shape = length ts # sh, data = concat (map data ts)\<rparr>"
  using assms by (cases ts) (auto simp: stack_def list_ex_iff)

lemma stack_nonempty: "stack ts = Inr x \<Longrightarrow> ts \<noteq> []"
  by (auto simp: stack_def)

text \<open>
  Every batch the loader makes is a stack of at least one sample, so the batches of the
  training loop are never empty.
\<close>

lemma stacked_batch_shape:
  assumes "stack ts = Inr x" "list_all (\<lambda>t. shape t = sh) ts"
  shows "shape x = length ts # sh \<and> 0 < length ts"
proof -
  have ne: "ts \<noteq> []"
    by (rule stack_nonempty[OF assms(1)])
  have "\<forall>u \<in> set ts. shape u = sh"
    using assms(2) by (simp add: list_all_iff)
  from stack_same_shape[OF ne this] assms(1) ne show ?thesis
    by auto
qed

lemma cat0_pair:
  assumes "shape t = c # sh" "shape u = c' # sh"
  shows "cat0 [t, u] = Inr \<lparr>shape = (c + c') # sh, data = data t @ data u\<rparr>"
  using assms by (simp add: cat0_def)

lemma channel_blocks:
  assumes "\<forall>d \<in> set ds. length (f d) = n \<and> length (m d) = n" "0 < n"
  shows "concat (map (\<lambda>blk. take n (drop n blk)) (rows_of (2 * n) (concat (map (\<lambda>d. f d @ m d) ds))))
           = concat (map m ds)"
    and "concat (map (\<lambda>blk. take n (drop 0 blk)) (rows_of (2 * n) (concat (map (\<lambda>d. f d @ m d) ds))))
           = concat (map f ds)"
proof -
  have "rows_of (2 * n) (concat (map (\<lambda>d. f d @ m d) ds)) = map (\<lambda>d. f d @ m d) ds"
    using assms by (intro rows_of_concat) auto
  then show "concat (map (\<lambda>blk. take n (drop n blk)) (rows_of (2 * n) (concat (map (\<lambda>d. f d @ m d) ds))))
           = concat (map m ds)"
    and "concat (map (\<lambda>blk. take n (drop 0 blk)) (rows_of (2 * n) (concat (map (\<lambda>d. f d @ m d) ds))))
           = concat (map f ds)"
    using assms(1) by (simp_all add: o_def cong: map_cong)
qed

lemma pipeline_sample_fm:
  assumes "pipeline_sample d"
  shows "fm d = \<lparr>shape = [2, S, S, S], data = data (fixed d) @ data (moving d)\<rparr>"
    and "length (data (fixed d)) = S * (S * S)" and "length (data (moving d)) = S * (S * S)"
proof -
  have "cat0 [fixed d, moving d] = Inr \<lparr>shape = [2, S, S, S], data = data (fixed d) @ data (moving d)\<rparr>"
    using assms cat0_pair[of "fixed d" 1 "[S, S, S]" "moving d" 1] by (simp add: pipeline_sample_def)
  then have "d\<lparr>fm := \<lparr>shape = [2, S, S, S], data = data (fixed d) @ data (moving d)\<rparr>\<rparr> = d"
    using assms by (simp add: pipeline_sample_def concat_items_def)
  then have "fm (d\<lparr>fm := \<lparr>shape = [2, S, S, S], data = data (fixed d) @ data (moving d)\<rparr>\<rparr>) = fm d"
    by simp
  then show "fm d = \<lparr>shape = [2, S, S, S], data = data (fixed d) @ data (moving d)\<rparr>"
    by simp
  show "length (data (fixed d)) = S * (S * S)" "length (data (moving d)) = S * (S * S)"
    using assms by (simp_all add: pipeline_sample_def wf_tensor_def numel_def)
qed

lemma batch_input:
  assumes "list_all pipeline_sample batch" "stack (map fm batch) = Inr x"
  shows "x = \<lparr>shape = [length batch, 2, S, S, S],
              data = concat (map (\<lambda>d. data (fixed d) @ data (moving d)) batch)\<rparr>"
proof -
  have ne: "map fm batch \<noteq> []"
    using stack_nonempty[OF assms(2)] .
  have fm: "\<forall>d \<in> set batch. fm d = \<lparr>shape = [2, S, S, S], data = data (fixed d) @ data (moving d)\<rparr>"
    using assms(1) pipeline_sample_fm(1) by (auto simp: list_all_iff)
  then have "\<forall>u \<in> set (map fm batch). shape u = [2, S, S, S]"
    by auto
  from stack_same_shape[OF ne this] assms(2)
  have "x = \<lparr>shape = [length batch, 2, S, S, S], data = concat (map data (map fm batch))\<rparr>"
    by simp
  moreover have "map data (map fm batch) = map (\<lambda>d. data (fixed d) @ data (moving d)) batch"
    using fm by simp
  ultimately show ?thesis by metis
qed

lemma batch_channels:
  assumes "list_all pipeline_sample batch" "stack (map fm batch) = Inr x"
  shows "select_channels [1] x =
           Inr \<lparr>shape = [length batch, 1, S, S, S], data = concat (map (\<lambda>d. data (moving d)) batch)\<rparr>"
    and "select_channels [0] x =
           Inr \<lparr>shape = [length batch, 1, S, S, S], data = concat (map (\<lambda>d. data (fixed d)) batch)\<rparr>"
proof -
  note x = batch_input[OF assms]
  have len: "\<forall>d \<in> set batch. length (data (fixed d)) = S * (S * S) \<and> length (data (moving d)) = S * (S * S)"
    using assms(1) pipeline_sample_fm(2,3) by (auto simp: list_all_iff)
  have pos: "0 < S * (S * S)"
    by (simp add: S_def)
  note blocks = channel_blocks[OF len pos]
  show "select_channels [1] x =
           Inr \<lparr>shape = [length batch, 1, S, S, S], data = concat (map (\<lambda>d. data (moving d)) batch)\<rparr>"
    using blocks(1) by (simp add: x select_channels_def Let_def o_def)
  show "select_channels [0] x =
           Inr \<lparr>shape = [length batch, 1, S, S, S], data = concat (map (\<lambda>d. data (fixed d)) batch)\<rparr>"
    using blocks(2) by (simp add: x select_channels_def Let_def o_def)
qed

lemma example_pipeline_sample: "pipeline_sample example_sample"
  by (simp add: pipeline_sample_def example_sample_def wf_tensor_def numel_def concat_items_def
      cat0_def)

lemma warped_from_moving:
  assumes "list_all pipeline_sample batch" "stack (map fm batch) = Inr x"
    and "forward P net x = Inr (theta, warped)"
  shows "warped =
           \<lparr>shape = [length batch, 1, S, S, S],
            data = sample_values P
                     \<lparr>shape = [length batch, 1, S, S, S],
                      data = concat (map (\<lambda>d. data (moving d)) batch)\<rparr>
                     \<lparr>shape = [length batch, S, S, S, 3],
                      data = grid_values P theta [length batch, 2, S, S, S]\<rparr>\<rparr>"
proof -
  have shape: "shape x = [length batch, 2, S, S, S]"
    using batch_input[OF assms(1,2)] by simp
  from forward_stages[OF assms(3)] obtain grid mv where
    st: "affine_grid P theta (shape x) = Inr grid" "select_channels [1] x = Inr mv"
      "grid_sample P mv grid = Inr warped"
    by blast
  have "0 < length batch"
    using stack_nonempty[OF assms(2)] by simp
  then have th: "shape theta = [length batch, 3, 4]"
    using assms(3) forward_on_batch[OF shape, of P net] by (auto simp: Let_def)
  have mv: "mv = \<lparr>shape = [length batch, 1, S, S, S],
                  data = concat (map (\<lambda>d. data (moving d)) batch)\<rparr>"
    using st(2) batch_channels(1)[OF assms(1,2)] by simp
  have grid: "grid = \<lparr>shape = [length batch, S, S, S, 3],
                      data = grid_values P theta [length batch, 2, S, S, S]\<rparr>"
    using st(1) by (simp add: affine_grid_def shape th split: if_splits)
  show ?thesis
    using st(3) by (simp add: grid_sample_def mv grid split: if_splits)
qed

text \<open>
  C7. For a batch of samples as the pipeline makes them, channel 0 of the network input
  holds the fixed images and channel 1 the moving images; the returned volume is the
  stack of the moving images resampled through the grid built from \<open>theta\<close>. The fixed
  images reach it through \<open>theta\<close> alone: another batch with the same moving images, for
  which the same \<open>theta\<close> is predicted, gives the same volume.
\<close>

theorem warped_is_resampled_moving:
  assumes "list_all pipeline_sample batch" and "stack (map fm batch) = Inr x"
    and "forward P net x = Inr (theta, warped)"
  shows "select_channels [0] x =
           Inr \<lparr>shape = [length batch, 1, S, S, S], data = concat (map (\<lambda>d. data (fixed d)) batch)\<rparr>
         \<and> select_channels [1] x =
           Inr \<lparr>shape = [length batch, 1, S, S, S], data = concat (map (\<lambda>d. data (moving d)) batch)\<rparr>
         \<and> (\<exists>grid. affine_grid P theta (shape x) = Inr grid
              \<and> grid_sample P \<lparr>shape = [length batch, 1, S, S, S],
                                data = concat (map (\<lambda>d. data (moving d)) batch)\<rparr> grid = Inr warped)
         \<and> (\<forall>batch' x' net' warped'.
               list_all pipeline_sample batch' \<and> stack (map fm batch') = Inr x'
               \<and> map moving batch' = map moving batch
               \<and> forward P net' x' = Inr (theta, warped') \<longrightarrow> warped' = warped)"
proof (intro conjI allI impI)
  show "select_channels [0] x =
           Inr \<lparr>shape = [length batch, 1, S, S, S], data = concat (map (\<lambda>d. data (fixed d)) batch)\<rparr>"
    by (rule batch_channels(2)[OF assms(1,2)])
  show mv: "select_channels [1] x =
           Inr \<lparr>shape = [length batch, 1, S, S, S], data = concat (map (\<lambda>d. data (moving d)) batch)\<rparr>"
    by (rule batch_channels(1)[OF assms(1,2)])
  show "\<exists>grid. affine_grid P theta (shape x) = Inr grid
          \<and> grid_sample P \<lparr>shape = [length batch, 1, S, S, S],
                            data = concat (map (\<lambda>d. data (moving d)) batch)\<rparr> grid = Inr warped"
    using forward_stages[OF assms(3)] mv by auto
next
  fix batch' x' net' warped'
  assume other: "list_all pipeline_sample batch' \<and> stack (map fm batch') = Inr x'
               \<and> map moving batch' = map moving batch
               \<and> forward P net' x' = Inr (theta, warped')"
  then have same: "map moving batch' = map moving batch"
    by simp
  have len: "length batch' = length batch"
    using same by (metis length_map)
  have "map (\<lambda>d. data (moving d)) batch' = map data (map moving batch')"
    by simp
  also have "\<dots> = map data (map moving batch)"
    by (simp only: same)
  also have "\<dots> = map (\<lambda>d. data (moving d)) batch"
    by simp
  finally have data: "map (\<lambda>d. data (moving d)) batch' = map (\<lambda>d. data (moving d)) batch" .
  have "warped' =
           \<lparr>shape = [length batch', 1, S, S, S],
            data = sample_values P
                     \<lparr>shape = [length batch', 1, S, S, S],
                      data = concat (map (\<lambda>d. data (moving d)) batch')\<rparr>
                     \<lparr>shape = [length batch', S, S, S, 3],
                      data = grid_values P theta [length batch', 2, S, S, S]\<rparr>\<rparr>"
    using other by (intro warped_from_moving[where net = net' and x = x']) simp_all
  then show "warped' = warped"
    unfolding len data using warped_from_moving[OF assms] by simp
qed

theorem warped_is_resampled_moving_witness:
  "list_all pipeline_sample [example_sample]
   \<and> (\<exists>x theta warped.
        stack (map fm [example_sample]) = Inr x
        \<and> forward \<lparr>grid_values = (\<lambda>t sz. []), sample_values = (\<lambda>t g. data t)\<rparr>
            \<lparr>localization_values = (\<lambda>t. []), fc_weight = [], fc_bias = [], training = True\<rparr> x
          = Inr (theta, warped)
        \<and> select_channels [1] x = Inr \<lparr>shape = [1, 1, S, S, S], data = replicate (S * S * S) 1\<rparr>)"
proof -
  let ?P = "\<lparr>grid_values = (\<lambda>t sz. []), sample_values = (\<lambda>t g. data t)\<rparr>"
  let ?net = "\<lparr>localization_values = (\<lambda>t. []), fc_weight = [], fc_bias = [], training = True\<rparr>"
  have batch: "list_all pipeline_sample [example_sample]"
    by (simp add: example_pipeline_sample)
  obtain x where x: "stack (map fm [example_sample]) = Inr x" "shape x = [1, 2, S, S, S]"
    by (simp add: stack_def example_sample_def)
  obtain theta warped where fw: "forward ?P ?net x = Inr (theta, warped)"
    using forward_on_batch[OF x(2), of ?P ?net] by (simp add: Let_def)
  from warped_is_resampled_moving[OF batch x(1) fw]
  have "select_channels [1] x = Inr \<lparr>shape = [1, 1, S, S, S], data = replicate (S * S * S) 1\<rparr>"
    by (simp add: example_sample_def)
  with batch x(1) fw show ?thesis
    by blast
qed

subsection \<open>The loss of a training step\<close>

lemma matmul_InrD:
  assumes "matmul A B = Inr C"
  shows "mat (length A) (length B) A" "mat (length B) (ncols B) B"
    "C = map (\<lambda>r. map (\<lambda>j. dot r (col B j)) [0..<ncols B]) A"
  using assms by (auto simp: matmul_def split: if_splits)

lemma torch_coords_mat:
  assumes "get_perfect_transform_torch_coords d = Inr R"
  shows "mat 4 4 R"
proof -
  let ?Q = "[[0, 0, 63 / 2, 0], [0, 63 / 2, 0, 0], [63 / 2, 0, 0, 0], [0, 0, 0, 1 :: real]]"
  from assms obtain theta T where T: "matmul theta ?Q = Inr T" and R: "matmul N T = Inr R"
    by (auto simp: get_perfect_transform_torch_coords_def and_then_eq_Inr linalg_inv_N)
  have "mat (length N) (length T) N"
    by (rule matmul_InrD(1)[OF R])
  then have lenT: "length T = 4"
    by (simp add: mat_def N_def)
  have "mat (length theta) 4 T"
    using matmul_InrD(3)[OF T] by (simp add: mat_def list_all_iff ncols_def)
  then have "mat 4 4 T"
    using lenT by (simp add: mat_def)
  then show ?thesis
    by (rule matmul_mat[OF mat_N _ _ R]) simp
qed

lemma collect_all:
  assumes "collect (map f xs) = Inr vs" "\<And>x v. f x = Inr v \<Longrightarrow> Q v"
  shows "list_all Q vs"
  using assms(1)
proof (induction xs arbitrary: vs)
  case Nil
  then show ?case by simp
next
  case (Cons x xs)
  then show ?case by (auto simp: and_then_eq_Inr assms(2))
qed

lemma take_concat_rows:
  assumes "\<forall>r \<in> set A. length r = m"
  shows "take (k * m) (concat A) = concat (take k A)"
  using assms
proof (induction A arbitrary: k)
  case Nil
  then show ?case by simp
next
  case (Cons r A)
  then show ?case by (cases k) simp_all
qed

lemma length_concat_rows:
  assumes "\<forall>r \<in> set A. length r = m"
  shows "length (concat A) = length A * m"
  using assms by (induction A) simp_all

lemma perfect_theta_value:
  assumes batch: "batch \<noteq> []"
    and Ps: "collect (map get_perfect_transform_torch_coords batch) = Inr Ps"
  shows "perfect_theta_of batch =
           Inr \<lparr>shape = [length batch, 3, 4], data = concat (map (\<lambda>A. concat (take 3 A)) Ps)\<rparr>"
proof -
  have mats: "list_all (mat 4 4) Ps"
    using Ps torch_coords_mat by (rule collect_all)
  then have rows: "\<forall>A \<in> set Ps. \<forall>r \<in> set A. length r = 4" and lens: "\<forall>A \<in> set Ps. length A = 4"
    by (auto simp: list_all_iff mat_def)
  have len: "length Ps = length batch"
    using collect_length[OF Ps] by simp
  then have ne: "map as_tensor Ps \<noteq> []"
    using batch by auto
  have "\<forall>A \<in> set Ps. ncols A = 4"
    using mats mat_ncols[of 4 4] by (auto simp: list_all_iff)
  then have "\<forall>u \<in> set (map as_tensor Ps). shape u = [4, 4]"
    using lens by (auto simp: as_tensor_def)
  from stack_same_shape[OF ne this]
  have st: "stack (map as_tensor Ps) = Inr \<lparr>shape = [length batch, 4, 4], data = concat (map concat Ps)\<rparr>"
    by (simp add: len as_tensor_def o_def)
  have "length (concat A) = 16" if "A \<in> set Ps" for A
    using length_concat_rows[of A 4] rows lens that by simp
  then have blocks: "rows_of 16 (concat (map concat Ps)) = map concat Ps"
    by (intro rows_of_concat) auto
  have "take 12 (concat A) = concat (take 3 A)" if "A \<in> set Ps" for A
    using take_concat_rows[of A 4 3] rows that by simp
  then have tk: "map (take 12 \<circ> concat) Ps = map (\<lambda>A. concat (take 3 A)) Ps"
    by (intro map_cong) simp_all
  have "first_rows 3 \<lparr>shape = [length batch, 4, 4], data = concat (map concat Ps)\<rparr> =
          Inr \<lparr>shape = [length batch, 3, 4], data = concat (map (\<lambda>A. concat (take 3 A)) Ps)\<rparr>"
    by (simp add: first_rows_def blocks tk)
  then show ?thesis
    by (simp add: perfect_theta_of_def Ps st)
qed

lemma squared_error_sum_value:
  assumes "shape t = shape u"
  shows "squared_error_sum t u = Inr (\<Sum>(a, b)\<leftarrow>zip (data t) (data u). (a - b)\<^sup>2)"
  using assms by (simp add: squared_error_sum_def o_def case_prod_unfold)

lemma training_loss_value:
  assumes "stack (map fm batch) = Inr x" and "model x = Inr (theta, warped)"
    and "shape theta = [length batch, 3, 4]"
    and "collect (map get_perfect_transform_torch_coords batch) = Inr Ps"
  shows "training_loss model batch =
           Inr (\<Sum>(t, p)\<leftarrow>zip (data theta) (concat (map (\<lambda>A. concat (take 3 A)) Ps)). (t - p)\<^sup>2)"
proof -
  have "batch \<noteq> []"
    using stack_nonempty[OF assms(1)] by simp
  from perfect_theta_value[OF this assms(4)] show ?thesis
    by (simp add: training_loss_def assms(1,2,3) squared_error_sum_value)
qed

lemma nth_concat_blocks:
  assumes "\<forall>b \<in> set bs. length b = n" "k < length bs" "i < n"
  shows "concat bs ! (k * n + i) = bs ! k ! i"
  using assms
proof (induction bs arbitrary: k)
  case Nil
  then show ?case by simp
next
  case (Cons b bs)
  show ?case
  proof (cases k)
    case 0
    with Cons.prems show ?thesis by (simp add: nth_append)
  next
    case (Suc k')
    with Cons.prems have "concat bs ! (k' * n + i) = bs ! k' ! i"
      by (intro Cons.IH) simp_all
    with Suc Cons.prems show ?thesis
      by (simp add: nth_append add.assoc)
  qed
qed

lemma perfect_theta_entry:
  assumes Ps: "collect (map get_perfect_transform_torch_coords batch) = Inr Ps"
    and k: "k < length batch" and i: "i < 3" and j: "j < 4"
  shows "concat (map (\<lambda>A. concat (take 3 A)) Ps) ! (12 * k + 4 * i + j) = Ps ! k ! i ! j"
proof -
  have mats: "list_all (mat 4 4) Ps"
    using Ps torch_coords_mat by (rule collect_all)
  have len: "length Ps = length batch"
    using collect_length[OF Ps] by simp
  have A: "mat 4 4 (Ps ! k)"
    using mats k len by (simp add: list_all_length)
  have rows: "\<forall>r \<in> set (take 3 A). length r = 4" if "A \<in> set Ps" for A
    using mats that by (auto simp: list_all_iff mat_def dest: in_set_takeD)
  have blocks: "\<forall>b \<in> set (map (\<lambda>A. concat (take 3 A)) Ps). length b = 12"
  proof
    fix b assume "b \<in> set (map (\<lambda>A. concat (take 3 A)) Ps)"
    then obtain A where A: "A \<in> set Ps" "b = concat (take 3 A)"
      by auto
    then have "length A = 4"
      using mats by (auto simp: list_all_iff mat_def)
    then show "length b = 12"
      using length_concat_rows[OF rows[OF A(1)]] A(2) by simp
  qed
  have "concat (map (\<lambda>A. concat (take 3 A)) Ps) ! (k * 12 + (4 * i + j))
          = map (\<lambda>A. concat (take 3 A)) Ps ! k ! (4 * i + j)"
    using k i j len by (intro nth_concat_blocks[OF blocks]) simp_all
  also have "\<dots> = concat (take 3 (Ps ! k)) ! (i * 4 + j)"
    using k len by (simp add: mult.commute)
  also have "\<dots> = take 3 (Ps ! k) ! i ! j"
    using rows[of "Ps ! k"] k len i j mat_length[OF A] by (intro nth_concat_blocks) simp_all
  also have "\<dots> = Ps ! k ! i ! j"
    using i by simp
  finally show ?thesis
    by (simp add: add.assoc mult.commute)
qed

lemma example_torch_coords:
  "get_perfect_transform_torch_coords example_sample
     = Inr [[1, 0, 0, 0], [0, 0, - 1, - 4 / 63], [0, 1, 0, 0], [0, 0, 0, 1]]"
proof -
  have "matmul [[0, 1, 0, 0], [- 1, 0, 0, - 2], [0, 0, 1, 0], [0, 0, 0, 1]]
          [[0, 0, 63 / 2, 0], [0, 63 / 2, 0, 0], [63 / 2, 0, 0, 0], [0, 0, 0, 1]]
          = Inr [[0, 63 / 2, 0, 0], [0, 0, - 63 / 2, - 2], [63 / 2, 0, 0, 0], [0, 0, 0, 1]]"
    by (simp add: matmul_def mat_def ncols_def col_def dot_def upt_4)
  moreover have "matmul N [[0, 63 / 2, 0, 0], [0, 0, - 63 / 2, - 2], [63 / 2, 0, 0, 0], [0, 0, 0, 1]]
          = Inr [[1, 0, 0, 0], [0, 0, - 1, - 4 / 63], [0, 1, 0, 0], [0, 0, 0, 1]]"
    by (simp add: matmul_def mat_def N_def S_def ncols_def col_def dot_def upt_4)
  ultimately show ?thesis
    by (simp add: get_perfect_transform_torch_coords_def example_monai_coords linalg_inv_N)
qed

text \<open>
  C2. In a training step where the network returns \<open>theta\<close> of shape \<open>(B, 3, 4)\<close> and the
  conversion succeeds on every sample, the loss is the sum of the squared differences
  between the entries of \<open>theta\<close> and the entries of the top three rows of each sample's
  known transform in torch coordinates, entry \<open>(k, i, j)\<close> against entry \<open>(i, j)\<close> of
  sample \<open>k\<close>. The resampled volume does not enter the loss.
\<close>

theorem training_loss_is_regression:
  assumes "stack (map fm batch) = Inr x" and "model x = Inr (theta, warped)"
    and "shape theta = [length batch, 3, 4]"
    and "collect (map get_perfect_transform_torch_coords batch) = Inr Ps"
  shows "training_loss model batch =
           Inr (\<Sum>(t, p)\<leftarrow>zip (data theta) (concat (map (\<lambda>A. concat (take 3 A)) Ps)). (t - p)\<^sup>2)
         \<and> (\<forall>k<length batch. \<forall>i<3. \<forall>j<4.
               concat (map (\<lambda>A. concat (take 3 A)) Ps) ! (12 * k + 4 * i + j) = Ps ! k ! i ! j)
         \<and> (\<forall>model' warped'. model' x = Inr (theta, warped') \<longrightarrow>
               training_loss model' batch = training_loss model batch)"
proof (intro conjI allI impI)
  show "training_loss model batch =
           Inr (\<Sum>(t, p)\<leftarrow>zip (data theta) (concat (map (\<lambda>A. concat (take 3 A)) Ps)). (t - p)\<^sup>2)"
    by (rule training_loss_value[where model = model and x = x, OF assms])
  show "concat (map (\<lambda>A. concat (take 3 A)) Ps) ! (12 * k + 4 * i + j) = Ps ! k ! i ! j"
    if "k < length batch" "i < 3" "j < 4" for k i j
    by (rule perfect_theta_entry[OF assms(4) that])
  show "training_loss model' batch = training_loss model batch"
    if "model' x = Inr (theta, warped')" for model' warped'
    using training_loss_value[where model = model and x = x, OF assms]
      training_loss_value[where model = model' and x = x, OF assms(1) that assms(3,4)]
    by simp
qed

theorem training_loss_is_regression_witness:
  "\<exists>net. AffineNet_init (\<lambda>x. replicate (loc_C3 * S0 ^ 3) (1 / 2)) (\<lambda>i j. 1) (\<lambda>i. 0) = Inr net
     \<and> training_loss (forward \<lparr>grid_values = (\<lambda>t sz. []), sample_values = (\<lambda>t g. [])\<rparr> net)
         [example_sample] = Inr (15892 / 3969)"
proof -
  let ?lv = "\<lambda>x :: tensor. replicate (loc_C3 * S0 ^ 3) (1 / 2 :: real)"
  let ?P = "\<lparr>grid_values = (\<lambda>t sz. []), sample_values = (\<lambda>t g. [])\<rparr>"
  let ?theta = "\<lparr>shape = [1, 3, 4], data = [1, 0, 0, 0, 0, 1, 0, 0, 0, 0, 1, 0]\<rparr>"
  obtain net where net: "AffineNet_init ?lv (\<lambda>i j. 1) (\<lambda>i. 0) = Inr net"
    by (simp add: AffineNet_init_value)
  obtain x where x: "stack (map fm [example_sample]) = Inr x" "shape x = [1, 2, S, S, S]"
    by (simp add: stack_def example_sample_def)
  obtain warped where fw: "forward ?P net x = Inr (?theta, warped)"
    using initial_theta[OF net x(2), of ?P] by auto
  have Ps: "collect (map get_perfect_transform_torch_coords [example_sample])
              = Inr [[[1, 0, 0, 0], [0, 0, - 1, - 4 / 63], [0, 1, 0, 0], [0, 0, 0, 1]]]"
    by (simp add: example_torch_coords)
  have "training_loss (forward ?P net) [example_sample] = Inr (15892 / 3969)"
    using training_loss_is_regression[where model = "forward ?P net" and x = x, OF x(1) fw _ Ps]
    by (simp add: power2_eq_square)
  with net show ?thesis
    by blast
qed

subsection \<open>The matrix of a random affine\<close>



















subsection \<open>The augmentation parameters\<close>



subsection \<open>The numbers in the predicted transform\<close>

lemma view_data: "view tgt t = Inr t' \<Longrightarrow> data t' = data t"
  by (auto simp: view_def Let_def split: if_splits)

lemma apply_localization_data:
  "apply_localization net x = Inr xs \<Longrightarrow> data xs = localization_values net x"
  by (auto simp: apply_localization_def and_then_eq_Inr)

lemma apply_fc_loc_data:
  "apply_fc_loc net flat = Inr t \<Longrightarrow>
   data t = concat (map (linear_row (fc_weight net) (fc_bias net))
                     (rows_of (loc_C3 * S0 ^ 3) (data flat)))"
  by (auto simp: apply_fc_loc_def and_then_eq_Inr)

lemma affine_grid_data:
  "affine_grid P theta sz = Inr g \<Longrightarrow> data g = grid_values P theta sz"
  by (auto simp: affine_grid_def split: list.splits if_splits)

lemma grid_sample_data:
  "grid_sample P inp g = Inr w \<Longrightarrow> data w = sample_values P inp g"
  by (auto simp: grid_sample_def split: list.splits if_splits)

lemma forward_theta_data:
  assumes "forward P net x = Inr (theta, warped)"
  shows "data theta = concat (map (linear_row (fc_weight net) (fc_bias net))
                        (rows_of (loc_C3 * S0 ^ 3) (localization_values net x)))"
proof -
  from forward_stages[OF assms] obtain xs flat t12 where
    st: "apply_localization net x = Inr xs" "view [- 1, int (loc_C3 * S0 ^ 3)] xs = Inr flat"
      "apply_fc_loc net flat = Inr t12" "view [- 1, 3, 4] t12 = Inr theta"
    by blast
  show ?thesis
    using view_data[OF st(4)] apply_fc_loc_data[OF st(3)] view_data[OF st(2)]
      apply_localization_data[OF st(1)]
    by simp
qed

lemma forward_data_flow:
  assumes "forward P net x = Inr (theta, warped)"
  shows "\<exists>grid mv. affine_grid P theta (shape x) = Inr grid
           \<and> data grid = grid_values P theta (shape x)
           \<and> select_channels [1] x = Inr mv
           \<and> grid_sample P mv grid = Inr warped
           \<and> data warped = sample_values P mv grid"
  using forward_stages[OF assms] affine_grid_data grid_sample_data by blast

lemma forward_probe:
  assumes "forward P net x = Inr (theta, warped)"
    and "grid_values P' = (\<lambda>t sz. data t)" and "sample_values P' = (\<lambda>inp g. data g)"
  shows "\<exists>w. forward P' net x = Inr (theta, w) \<and> data w = data theta"
proof -
  obtain w where w: "forward P' net x = Inr (theta, w)"
    using forward_theta_any_sampling[OF assms(1)] by blast
  from forward_data_flow[OF w] obtain grid mv where
    "data grid = grid_values P' theta (shape x)" "data w = sample_values P' mv grid"
    by blast
  then have "data w = data theta"
    by (simp add: assms(2,3))
  with w show ?thesis
    by blast
qed

lemma length_linear_row: "length (linear_row W b r) = min (length W) (length b)"
  by (simp add: linear_row_def)

lemma theta_rows:
  assumes net: "wf_net net" and len: "length feats = B * (loc_C3 * S0 ^ 3)"
  defines "rows \<equiv> map (linear_row (fc_weight net) (fc_bias net)) (rows_of (loc_C3 * S0 ^ 3) feats)"
  shows "length rows = B" and "list_all (\<lambda>r. length r = 12) rows"
    and "rows_of 12 (concat rows) = rows" and "length (concat rows) = B * 12"
proof -
  have W: "length (fc_weight net) = 12" "length (fc_bias net) = 12"
    using net by (simp_all add: wf_net_def mat_def)
  show B: "length rows = B"
    by (simp add: rows_def rows_of_length len S0_value loc_C3_def)
  have each: "\<forall>r \<in> set rows. length r = 12"
    by (auto simp: rows_def length_linear_row W)
  then show "list_all (\<lambda>r. length r = 12) rows"
    by (simp add: list_all_iff)
  show "rows_of 12 (concat rows) = rows"
    using each by (intro rows_of_concat) simp_all
  show "length (concat rows) = B * 12"
    using length_concat_rows[OF each] B by simp
qed

subsection \<open>The predicted transform on a batch, and its way into the resampling\<close>

lemma dot_replicate: "dot (replicate n a) (replicate n b) = real n * (a * b)"
  by (induction n) (simp_all add: algebra_simps)

lemma rows_of_replicate:
  assumes "0 < n"
  shows "rows_of n (replicate (k * n) c) = replicate k (replicate n c)"
proof -
  have "concat (replicate k (replicate n c)) = replicate (k * n) c"
    by (induction k) (simp_all add: replicate_add)
  then have "rows_of n (replicate (k * n) c) = rows_of n (concat (replicate k (replicate n c)))"
    by simp
  also have "\<dots> = replicate k (replicate n c)"
    using assms by (intro rows_of_concat) simp_all
  finally show ?thesis .
qed

lemma example_net_row:
  "linear_row (fc_weight example_net) (fc_bias example_net) (replicate (loc_C3 * S0 ^ 3) 2)
     = [3, 2, 2, 2, 2, 3, 2, 2, 2, 2, 3, 2]"
  by (simp add: linear_row_def example_net_def dot_replicate numeral_eq_Suc)
     (simp add: S0_value loc_C3_def)

lemma example_net_wf: "wf_net example_net"
  by (simp add: wf_net_def example_net_def mat_def list_all_iff)

lemma example_net_theta:
  assumes "shape x = [2, 2, S, S, S]"
  shows "concat (map (linear_row (fc_weight example_net) (fc_bias example_net))
           (rows_of (loc_C3 * S0 ^ 3) (localization_values example_net x)))
         = [3, 2, 2, 2, 2, 3, 2, 2, 2, 2, 3, 2, 3, 2, 2, 2, 2, 3, 2, 2, 2, 2, 3, 2]"
proof -
  have "localization_values example_net x = replicate (2 * (loc_C3 * S0 ^ 3)) 2"
    using assms by (simp add: example_net_def)
  moreover have "rows_of (loc_C3 * S0 ^ 3) (replicate (2 * (loc_C3 * S0 ^ 3)) 2)
                   = replicate 2 (replicate (loc_C3 * S0 ^ 3) (2 :: real))"
    by (rule rows_of_replicate) (simp add: S0_value loc_C3_def)
  ultimately show ?thesis
    by (simp add: example_net_row numeral_2_eq_2)
qed

text \<open>
  C5. On every non-empty batch of shape \<open>(B, 2, S, S, S)\<close> with \<open>S = 64\<close>, \<open>forward\<close>
  returns a predicted transform of shape \<open>(B, 3, 4)\<close> whose numbers are the regressor's
  outputs on the rows of flattened features. For a regressor of the declared size and a
  well-formed localization output these are \<open>B\<close> rows, one per sample, of \<open>4 * 3 = 12\<close>
  numbers each, so the predicted transform stores as many numbers as its shape says.
\<close>

theorem forward_theta_shape:
  assumes "shape x = [B, 2, S, S, S]" and "0 < B"
  shows "S = 64
         \<and> sequential_shape (training net) fc_loc [B, loc_C3 * S0 ^ 3] = Inr [B, 4 * 3]
         \<and> (\<exists>theta warped. forward P net x = Inr (theta, warped) \<and> shape theta = [B, 3, 4]
              \<and> data theta = concat (map (linear_row (fc_weight net) (fc_bias net))
                                (rows_of (loc_C3 * S0 ^ 3) (localization_values net x)))
              \<and> (wf_net net \<and> length (localization_values net x) = B * (loc_C3 * S0 ^ 3) \<longrightarrow>
                    wf_tensor theta
                    \<and> length (rows_of 12 (data theta)) = B
                    \<and> list_all (\<lambda>r. length r = 12) (rows_of 12 (data theta))
                    \<and> rows_of 12 (data theta)
                         = map (linear_row (fc_weight net) (fc_bias net))
                             (rows_of (loc_C3 * S0 ^ 3) (localization_values net x))))"
proof (intro conjI)
  show "S = 64"
    by (simp add: S_def)
  show "sequential_shape (training net) fc_loc [B, loc_C3 * S0 ^ 3] = Inr [B, 4 * 3]"
    by (simp add: fc_loc_shape)
  let ?rows = "map (linear_row (fc_weight net) (fc_bias net))
                 (rows_of (loc_C3 * S0 ^ 3) (localization_values net x))"
  obtain theta warped where fw: "forward P net x = Inr (theta, warped)"
    and sh: "shape theta = [B, 3, 4]"
    using forward_on_batch[OF assms, of P net] by (simp add: Let_def)
  have dt: "data theta = concat ?rows"
    by (rule forward_theta_data[OF fw])
  have "wf_tensor theta \<and> length (rows_of 12 (data theta)) = B
          \<and> list_all (\<lambda>r. length r = 12) (rows_of 12 (data theta))
          \<and> rows_of 12 (data theta) = ?rows"
    if "wf_net net \<and> length (localization_values net x) = B * (loc_C3 * S0 ^ 3)"
  proof -
    note rows = theta_rows[of net "localization_values net x" B]
    have net: "wf_net net" and len: "length (localization_values net x) = B * (loc_C3 * S0 ^ 3)"
      using that by simp_all
    have "wf_tensor theta"
      using rows(4)[OF net len] by (simp add: wf_tensor_def numel_def sh dt)
    moreover have "rows_of 12 (data theta) = ?rows"
      unfolding dt by (rule rows(3)[OF net len])
    ultimately show ?thesis
      using rows(1,2)[OF net len] by simp
  qed
  with fw sh dt
  show "\<exists>theta warped. forward P net x = Inr (theta, warped) \<and> shape theta = [B, 3, 4]
          \<and> data theta = concat ?rows
          \<and> (wf_net net \<and> length (localization_values net x) = B * (loc_C3 * S0 ^ 3) \<longrightarrow>
                wf_tensor theta
                \<and> length (rows_of 12 (data theta)) = B
                \<and> list_all (\<lambda>r. length r = 12) (rows_of 12 (data theta))
                \<and> rows_of 12 (data theta) = ?rows)"
    by blast
qed

theorem forward_theta_shape_witness:
  "\<exists>theta warped.
     forward example_probe example_net
       \<lparr>shape = [2, 2, S, S, S], data = replicate (2 * 2 * S * S * S) 1\<rparr> = Inr (theta, warped)
     \<and> theta = \<lparr>shape = [2, 3, 4],
                data = [3, 2, 2, 2, 2, 3, 2, 2, 2, 2, 3, 2, 3, 2, 2, 2, 2, 3, 2, 2, 2, 2, 3, 2]\<rparr>
     \<and> wf_tensor theta
     \<and> rows_of 12 (data theta)
         = [[3, 2, 2, 2, 2, 3, 2, 2, 2, 2, 3, 2], [3, 2, 2, 2, 2, 3, 2, 2, 2, 2, 3, 2]]"
proof -
  let ?x = "\<lparr>shape = [2, 2, S, S, S], data = replicate (2 * 2 * S * S * S) 1\<rparr>"
  have x: "shape ?x = [2, 2, S, S, S]"
    by simp
  have len: "wf_net example_net
               \<and> length (localization_values example_net ?x) = 2 * (loc_C3 * S0 ^ 3)"
    by (simp add: example_net_wf) (simp add: example_net_def)
  from forward_theta_shape[OF x, of example_net example_probe] len
  obtain theta warped where
    fw: "forward example_probe example_net ?x = Inr (theta, warped)"
    and sh: "shape theta = [2, 3, 4]"
    and dt: "data theta = concat (map (linear_row (fc_weight example_net) (fc_bias example_net))
               (rows_of (loc_C3 * S0 ^ 3) (localization_values example_net ?x)))"
    and wf: "wf_tensor theta"
    and rows: "rows_of 12 (data theta)
                 = map (linear_row (fc_weight example_net) (fc_bias example_net))
                     (rows_of (loc_C3 * S0 ^ 3) (localization_values example_net ?x))"
    by auto
  have dt': "data theta = [3, 2, 2, 2, 2, 3, 2, 2, 2, 2, 3, 2, 3, 2, 2, 2, 2, 3, 2, 2, 2, 2, 3, 2]"
    using dt example_net_theta[OF x] by simp
  have "rows_of 12 (data theta)
          = [[3, 2, 2, 2, 2, 3, 2, 2, 2, 2, 3, 2], [3, 2, 2, 2, 2, 3, 2, 2, 2, 2, 3, 2]]"
    unfolding dt'
    using rows_of_concat[of "[[3, 2, 2, 2, 2, 3, 2, 2, 2, 2, 3, 2], [3, 2, 2, 2, 2, 3, 2, 2, 2, 2, 3, 2 :: real]]" 12]
    by simp
  moreover have "theta = \<lparr>shape = [2, 3, 4],
                data = [3, 2, 2, 2, 2, 3, 2, 2, 2, 2, 3, 2, 3, 2, 2, 2, 2, 3, 2, 2, 2, 2, 3, 2]\<rparr>"
    using sh dt' by simp
  ultimately show ?thesis
    using fw wf by blast
qed

text \<open>
  C6. Whenever \<open>forward\<close> returns, its two results come from the stages in the
  spatial-transformer order. First \<open>theta\<close> is regressed from the whole two-channel
  input: its numbers are the regressor's outputs on the flattened localization features,
  the same whatever the sampling primitives compute. Then the grid is built from that
  \<open>theta\<close> (its numbers are the grid primitive's values at \<open>theta\<close>) and the returned
  volume is the moving channel sampled through that grid. With primitives that hand
  their argument's numbers on, the returned volume carries the numbers of \<open>theta\<close>.
\<close>

theorem forward_regresses_then_resamples:
  assumes "forward P net x = Inr (theta, warped)"
  shows "(\<exists>xs flat t12. apply_localization net x = Inr xs
            \<and> view [- 1, int (loc_C3 * S0 ^ 3)] xs = Inr flat
            \<and> apply_fc_loc net flat = Inr t12
            \<and> view [- 1, 3, 4] t12 = Inr theta)
         \<and> data theta = concat (map (linear_row (fc_weight net) (fc_bias net))
                           (rows_of (loc_C3 * S0 ^ 3) (localization_values net x)))
         \<and> (\<exists>grid mv. affine_grid P theta (shape x) = Inr grid
            \<and> data grid = grid_values P theta (shape x)
            \<and> select_channels [1] x = Inr mv
            \<and> grid_sample P mv grid = Inr warped
            \<and> data warped = sample_values P mv grid)
         \<and> (\<forall>P'. \<exists>warped'. forward P' net x = Inr (theta, warped'))
         \<and> (\<forall>P'. grid_values P' = (\<lambda>t sz. data t) \<and> sample_values P' = (\<lambda>inp g. data g) \<longrightarrow>
               (\<exists>w. forward P' net x = Inr (theta, w) \<and> data w = data theta))"
  using forward_stages[OF assms] forward_theta_data[OF assms] forward_data_flow[OF assms]
    forward_theta_any_sampling[OF assms] forward_probe[OF assms]
  by blast

theorem forward_regresses_then_resamples_witness:
  "\<exists>theta warped.
     forward example_probe example_net
       \<lparr>shape = [2, 2, S, S, S], data = replicate (2 * 2 * S * S * S) 1\<rparr> = Inr (theta, warped)
     \<and> data theta = [3, 2, 2, 2, 2, 3, 2, 2, 2, 2, 3, 2, 3, 2, 2, 2, 2, 3, 2, 2, 2, 2, 3, 2]
     \<and> data warped = data theta"
proof -
  let ?x = "\<lparr>shape = [2, 2, S, S, S], data = replicate (2 * 2 * S * S * S) 1\<rparr>"
  have x: "shape ?x = [2, 2, S, S, S]"
    by simp
  obtain theta warped where fw: "forward example_probe example_net ?x = Inr (theta, warped)"
    using forward_on_batch[OF x, of example_probe example_net] by (simp add: Let_def)
  note c6 = forward_regresses_then_resamples[OF fw]
  have dt: "data theta = [3, 2, 2, 2, 2, 3, 2, 2, 2, 2, 3, 2, 3, 2, 2, 2, 2, 3, 2, 2, 2, 2, 3, 2]"
    using c6 example_net_theta[OF x] by simp
  have probe: "grid_values example_probe = (\<lambda>t sz. data t)
                 \<and> sample_values example_probe = (\<lambda>inp g. data g)"
    by (simp add: example_probe_def)
  from c6 have "\<forall>P'. grid_values P' = (\<lambda>t sz. data t) \<and> sample_values P' = (\<lambda>inp g. data g) \<longrightarrow>
               (\<exists>w. forward P' example_net ?x = Inr (theta, w) \<and> data w = data theta)"
    by blast
  with probe obtain w where
    w: "forward example_probe example_net ?x = Inr (theta, w)" "data w = data theta"
    by blast
  from w fw have "data warped = data theta"
    by simp
  with fw dt show ?thesis
    by blast
qed

end
